theory Spec2Isabelle
  imports Main "HOL-Library.Multiset"
begin

section \<open>Photo records as the browser holds them\<close>

text \<open>
  The server answers \<^verbatim>\<open>GET /api/photos\<close> with JSON, so a photo that was
  loaded from the server carries its upload date as the ISO-8601 text of an instant; a photo
  that the upload callback adds to the gallery carries a \<^verbatim>\<open>Date\<close> object.
  Both are kept apart, because JavaScript arithmetic treats them differently: a
  \<^verbatim>\<open>Date\<close> converts to its millisecond count, the ISO text converts to NaN.
  \<open>IsoString t\<close> stands for the text \<^verbatim>\<open>new Date(t).toISOString()\<close>.
\<close>

datatype js_date = DateObj int | IsoString int

text \<open>\<^verbatim>\<open>new Date(photo.uploadDate)\<close>: the instant, in milliseconds.\<close>

fun new_Date :: "js_date \<Rightarrow> int" where
  "new_Date (DateObj t) = t"
| "new_Date (IsoString t) = t"

text \<open>\<^verbatim>\<open>Number(v)\<close> for such a value; \<open>None\<close> is NaN.\<close>

fun to_number :: "js_date \<Rightarrow> int option" where
  "to_number (DateObj t) = Some t"
| "to_number (IsoString t) = None"

record photo =
  photo_id :: string
  fileName :: string
  originalName :: string
  category :: string
  size_bytes :: int
  mimeType :: string
  width :: int
  height :: int
  uploadDate :: js_date
  imageKey :: string
  thumbnail :: string
  tags :: "string list"
  downloadURL :: string

section \<open>Array.prototype.sort\<close>

text \<open>
  \<^verbatim>\<open>Array.prototype.sort\<close> is stable. The comparator's result is an integer here;
  a comparator that yields NaN in the source yields 0 in its model, as the language
  prescribes. For a consistent comparator every stable sort returns the same list; for an
  inconsistent one the language leaves the order to the engine, and this model fixes
  insertion from the right.
\<close>

fun js_insert :: "('a \<Rightarrow> 'a \<Rightarrow> int) \<Rightarrow> 'a \<Rightarrow> 'a list \<Rightarrow> 'a list" where
  "js_insert cmp x [] = [x]"
| "js_insert cmp x (y # ys) = (if cmp x y > 0 then y # js_insert cmp x ys else x # y # ys)"

definition js_sort :: "('a \<Rightarrow> 'a \<Rightarrow> int) \<Rightarrow> 'a list \<Rightarrow> 'a list" where
  "js_sort cmp xs = foldr (js_insert cmp) xs []"

section \<open>Memories timeline\<close>

subsection \<open>Plain objects used as counters\<close>

text \<open>
  \<^verbatim>\<open>categoryCounts\<close> is a plain object. Its own properties are kept in creation
  order; a value is a number (\<open>Some n\<close>) or a non-numeric string (\<open>None\<close>), which is
  what \<^verbatim>\<open>(categoryCounts[k] || 0) + 1\<close> produces when \<open>k\<close> names a member
  inherited from \<^verbatim>\<open>Object.prototype\<close>.
\<close>

type_synonym js_object = "(string \<times> int option) list"

definition object_prototype_keys :: "string list" where
  "object_prototype_keys =
     [''constructor'', ''hasOwnProperty'', ''isPrototypeOf'', ''propertyIsEnumerable'',
      ''toLocaleString'', ''toString'', ''valueOf'', ''__defineGetter__'',
      ''__defineSetter__'', ''__lookupGetter__'', ''__lookupSetter__'']"

definition assign :: "js_object \<Rightarrow> string \<Rightarrow> int option \<Rightarrow> js_object" where
  "assign obj k v =
     (if k \<in> fst ` set obj then map (\<lambda>(k', v'). if k' = k then (k', v) else (k', v')) obj
      else obj @ [(k, v)])"

text \<open>
  One round of \<^verbatim>\<open>categoryCounts[k] = (categoryCounts[k] || 0) + 1\<close>. Assigning a
  string to \<^verbatim>\<open>__proto__\<close> is ignored by its setter.
\<close>

definition count_category :: "js_object \<Rightarrow> string \<Rightarrow> js_object" where
  "count_category obj k =
     (case map_of obj k of
        Some (Some n) \<Rightarrow> assign obj k (Some (n + 1))
      | Some None \<Rightarrow> assign obj k None
      | None \<Rightarrow>
          if k = ''__proto__'' then obj
          else if k \<in> set object_prototype_keys then assign obj k None
          else assign obj k (Some 1))"

definition is_digit :: "char \<Rightarrow> bool" where
  "is_digit c = (48 \<le> (of_char c :: int) \<and> (of_char c :: int) \<le> 57)"

definition digit_val :: "char \<Rightarrow> int" where
  "digit_val c = of_char c - 48"

text \<open>A property name is an array index when it is the canonical decimal text of an
  integer below \<open>2^32 - 1\<close>.\<close>

definition array_index :: "string \<Rightarrow> int option" where
  "array_index k =
     (if k = [] \<or> \<not> list_all is_digit k \<or> (length k > 1 \<and> hd k = CHR ''0'') then None
      else let n = foldl (\<lambda>a c. 10 * a + digit_val c) 0 k
           in if n \<le> 4294967294 then Some n else None)"

text \<open>\<^verbatim>\<open>Object.entries\<close>: array-index names first, ascending, then the other names in
  creation order.\<close>

definition Object_entries :: "js_object \<Rightarrow> (string \<times> int option) list" where
  "Object_entries obj =
     sort_key (\<lambda>(k, v). the (array_index k)) (filter (\<lambda>(k, v). array_index k \<noteq> None) obj)
     @ filter (\<lambda>(k, v). array_index k = None) obj"

text \<open>The comparator \<^verbatim>\<open>([,a], [,b]) => b - a\<close>.\<close>

fun by_count_desc :: "(string \<times> int option) \<Rightarrow> (string \<times> int option) \<Rightarrow> int" where
  "by_count_desc (ka, Some a) (kb, Some b) = b - a"
| "by_count_desc _ _ = 0"

definition getMostCommonCategory :: "photo list \<Rightarrow> string" where
  "getMostCommonCategory photos =
     (let categoryCounts = foldl count_category [] (map category photos)
      in case js_sort by_count_desc (Object_entries categoryCounts) of
           [] \<Rightarrow> ''other''
         | (k, v) # rest \<Rightarrow> if k = [] then ''other'' else k)"

subsection \<open>Representative photos\<close>

text \<open>The comparator \<^verbatim>\<open>(a, b) => new Date(a.uploadDate) - new Date(b.uploadDate)\<close>.\<close>

definition by_upload_time :: "photo \<Rightarrow> photo \<Rightarrow> int" where
  "by_upload_time a b = new_Date (uploadDate a) - new_Date (uploadDate b)"

definition selectRepresentativePhotos :: "photo list \<Rightarrow> photo list" where
  "selectRepresentativePhotos photos =
     (if length photos \<le> 4 then photos
      else let sorted = js_sort by_upload_time photos;
               step = int (length sorted) div 4
           in map (\<lambda>i. sorted ! nat (min (i * step) (int (length sorted) - 1))) [0, 1, 2, 3])"

subsection \<open>Notions used to state the properties of the timeline\<close>

text \<open>The distinct elements of a list, in the order of their first occurrence.\<close>

definition first_occ :: "'a list \<Rightarrow> 'a list" where
  "first_occ xs = rev (remdups (rev xs))"

text \<open>A category name that is neither empty, nor an array index, nor the name of a member
  of \<^verbatim>\<open>Object.prototype\<close>.\<close>

definition plain_category :: "string \<Rightarrow> bool" where
  "plain_category c =
     (c \<noteq> [] \<and> array_index c = None \<and> c \<notin> set object_prototype_keys \<and> c \<noteq> ''__proto__'')"

subsection \<open>Sample photos\<close>

definition example_photo :: "string \<Rightarrow> string \<Rightarrow> js_date \<Rightarrow> photo" where
  "example_photo i c d =
     \<lparr>photo_id = i, fileName = ''1700000000000_'' @ i @ ''.jpg'', originalName = i @ ''.jpg'',
      category = c, size_bytes = 2048, mimeType = ''image/jpeg'', width = 640, height = 480,
      uploadDate = d, imageKey = ''photo_1700000000000_'' @ i, thumbnail = [], tags = [],
      downloadURL = ''/api/images/photo_1700000000000_'' @ i\<rparr>"

definition day_of_five :: "photo list" where
  "day_of_five =
     map (\<lambda>t. example_photo ''p'' ''travel'' (IsoString t)) [50, 30, 10, 40, 20]"

definition day_of_nine :: "photo list" where
  "day_of_nine =
     map (\<lambda>t. example_photo ''p'' ''travel'' (IsoString t)) [50, 30, 10, 40, 20, 90, 80, 70, 60]"

definition tied_day :: "photo list" where
  "tied_day =
     [example_photo ''p1'' ''travel'' (IsoString 10), example_photo ''p2'' ''7'' (IsoString 20)]"

definition mixed_day :: "photo list" where
  "mixed_day =
     map (\<lambda>c. example_photo ''p'' c (IsoString 10))
       [''food'', ''travel'', ''travel'', ''food'', ''pets'']"

section \<open>Upload queue manager\<close>

text \<open>
  An upload item is a mutable object that the queue, the running upload and the callbacks
  share. The objects live in a store, \<open>items\<close>, in the order of their creation, and are
  referred to by their position in it. Of an item only the file's metadata and the status
  are modelled; previews, the compressed variant, the progress percentage and the abort
  controllers (whose signal no request listens to) do not influence the queue. The methods
  the application calls are modelled: \<^verbatim>\<open>addFiles\<close>, \<^verbatim>\<open>startUpload\<close> and
  \<^verbatim>\<open>cancelAllUploads\<close>, with \<^verbatim>\<open>processQueue\<close>, \<^verbatim>\<open>uploadFile\<close>,
  \<^verbatim>\<open>handleUploadComplete\<close> and \<^verbatim>\<open>reset\<close> behind them.
\<close>

datatype upload_status = Pending | Uploading | Completed | Failed

record upload_file =
  file_name :: string
  file_size :: int
  file_type :: string

record upload_item =
  item_file :: upload_file
  status :: upload_status

record upload_manager =
  items :: "upload_item list"
  queue :: "nat list"
  activeUploads :: int
  maxConcurrentUploads :: int
  totalFiles :: int
  completedFiles :: int
  failedFiles :: int

record upload_stats =
  total :: int
  completed :: int
  failed :: int

text \<open>What the manager tells its listeners. The \<^verbatim>\<open>preview\<close> and
  \<^verbatim>\<open>progress\<close> callbacks and the toasts are left out; listeners neither throw nor
  call back into the manager.\<close>

datatype notification = Start | Complete nat | AllComplete upload_stats | Cancelled

definition new_UploadManager :: upload_manager where
  "new_UploadManager =
     \<lparr>items = [], queue = [], activeUploads = 0, maxConcurrentUploads = 3,
      totalFiles = 0, completedFiles = 0, failedFiles = 0\<rparr>"

text \<open>\<^verbatim>\<open>addFiles\<close>. \<^verbatim>\<open>Utils.validateFile\<close> is not part of the sources and
  is a parameter.\<close>

definition add_file :: "(upload_file \<Rightarrow> bool) \<Rightarrow> upload_manager \<Rightarrow> upload_file \<Rightarrow> upload_manager" where
  "add_file validateFile m f =
     (if validateFile f
      then m\<lparr>items := items m @ [\<lparr>item_file = f, status = Pending\<rparr>],
             queue := queue m @ [length (items m)]\<rparr>
      else m)"

definition addFiles :: "(upload_file \<Rightarrow> bool) \<Rightarrow> upload_file list \<Rightarrow> upload_manager \<Rightarrow> upload_manager" where
  "addFiles validateFile files m =
     (let m' = foldl (add_file validateFile) m files
      in m'\<lparr>totalFiles := totalFiles m' + int (length (filter validateFile files))\<rparr>)"

definition set_status :: "nat \<Rightarrow> upload_status \<Rightarrow> upload_manager \<Rightarrow> upload_manager" where
  "set_status a st m = m\<lparr>items := (items m)[a := (items m ! a)\<lparr>status := st\<rparr>]\<rparr>"

text \<open>\<^verbatim>\<open>uploadFile\<close> up to its first \<^verbatim>\<open>await\<close>: the part that runs inside
  \<^verbatim>\<open>processQueue\<close>.\<close>

definition uploadFile_begin :: "nat \<Rightarrow> upload_manager \<Rightarrow> upload_manager" where
  "uploadFile_begin a m = set_status a Uploading m"

function processQueue :: "upload_manager \<Rightarrow> upload_manager" where
  "processQueue m =
     (case queue m of
        [] \<Rightarrow> m
      | a # rest \<Rightarrow>
          if activeUploads m < maxConcurrentUploads m
          then processQueue
                 (uploadFile_begin a (m\<lparr>queue := rest, activeUploads := activeUploads m + 1\<rparr>))
          else m)"
  by pat_completeness auto
termination
  by (relation "measure (\<lambda>m. length (queue m))")
     (auto simp: uploadFile_begin_def set_status_def)

definition reset :: "upload_manager \<Rightarrow> upload_manager" where
  "reset m = m\<lparr>queue := [], activeUploads := 0, totalFiles := 0,
                completedFiles := 0, failedFiles := 0\<rparr>"

definition startUpload :: "upload_manager \<Rightarrow> upload_manager \<times> notification list" where
  "startUpload m = (if queue m = [] then (m, []) else (processQueue m, [Start]))"

definition handleUploadComplete ::
    "nat \<Rightarrow> bool \<Rightarrow> upload_manager \<Rightarrow> upload_manager \<times> notification list" where
  "handleUploadComplete a success m =
     (let m1 = m\<lparr>activeUploads := activeUploads m - 1\<rparr>;
          m2 = (if success then m1\<lparr>completedFiles := completedFiles m1 + 1\<rparr>
                else m1\<lparr>failedFiles := failedFiles m1 + 1\<rparr>);
          m3 = processQueue m2
      in if completedFiles m3 + failedFiles m3 = totalFiles m3
         then (reset m3,
               [Complete a,
                AllComplete \<lparr>total = totalFiles m3, completed = completedFiles m3,
                             failed = failedFiles m3\<rparr>])
         else (m3, [Complete a]))"

text \<open>The rest of \<^verbatim>\<open>uploadFile\<close>, run when the upload of the item settles: with
  success after \<^verbatim>\<open>addPhoto\<close> has returned, without it in the \<^verbatim>\<open>catch\<close>
  branch.\<close>

definition uploadFile_settle ::
    "nat \<Rightarrow> bool \<Rightarrow> upload_manager \<Rightarrow> upload_manager \<times> notification list" where
  "uploadFile_settle a success m =
     handleUploadComplete a success (set_status a (if success then Completed else Failed) m)"

definition cancelAllUploads :: "upload_manager \<Rightarrow> upload_manager \<times> notification list" where
  "cancelAllUploads m = (reset (m\<lparr>queue := []\<rparr>), [Cancelled])"

text \<open>
  The manager is driven by calls of its methods and by the settling of uploads in flight.
  An upload can settle only while its item is in flight, that is, while the item's status
  is \<open>Uploading\<close>.
\<close>

datatype event = AddFiles "upload_file list" | StartUpload | Settle nat bool | CancelAllUploads

fun step ::
    "(upload_file \<Rightarrow> bool) \<Rightarrow> event \<Rightarrow> upload_manager \<Rightarrow> (upload_manager \<times> notification list) option"
where
  "step v (AddFiles files) m = Some (addFiles v files m, [])"
| "step v StartUpload m = Some (startUpload m)"
| "step v (Settle a success) m =
     (if a < length (items m) \<and> status (items m ! a) = Uploading
      then Some (uploadFile_settle a success m) else None)"
| "step v CancelAllUploads m = Some (cancelAllUploads m)"

fun is_AllComplete :: "notification \<Rightarrow> bool" where
  "is_AllComplete (AllComplete p) = True"
| "is_AllComplete _ = False"

text \<open>
  A run of events. Beside the manager it keeps a history value: the number of items that
  existed when the counters were last reset. The items created since then are the current
  batch.
\<close>

fun run ::
    "(upload_file \<Rightarrow> bool) \<Rightarrow> event list \<Rightarrow> upload_manager \<times> nat \<Rightarrow> (upload_manager \<times> nat) option"
where
  "run v [] s = Some s"
| "run v (e # es) (m, b) =
     (case step v e m of
        None \<Rightarrow> None
      | Some (m', out) \<Rightarrow>
          run v es (m', if list_ex is_AllComplete out \<or> Cancelled \<in> set out
                        then length (items m') else b))"

definition count_status :: "upload_status \<Rightarrow> upload_item list \<Rightarrow> nat" where
  "count_status st xs = count_list (map status xs) st"

definition terminal :: "upload_item \<Rightarrow> bool" where
  "terminal it = (status it = Completed \<or> status it = Failed)"

definition batch :: "nat \<Rightarrow> upload_manager \<Rightarrow> upload_item list" where
  "batch b m = drop b (items m)"

text \<open>What holds of the manager at every moment of a run without cancellation.\<close>

definition consistent :: "nat \<Rightarrow> upload_manager \<Rightarrow> bool" where
  "consistent b m =
     (maxConcurrentUploads m = 3
      \<and> distinct (queue m)
      \<and> list_all (\<lambda>a. a < length (items m) \<and> status (items m ! a) = Pending) (queue m)
      \<and> list_all (\<lambda>a. status (items m ! a) = Pending \<longrightarrow> a \<in> set (queue m))
           [0 ..< length (items m)]
      \<and> activeUploads m = int (count_status Uploading (items m))
      \<and> activeUploads m \<le> 3
      \<and> b \<le> length (items m)
      \<and> list_all terminal (take b (items m))
      \<and> totalFiles m = int (length (batch b m))
      \<and> completedFiles m = int (count_status Completed (batch b m))
      \<and> failedFiles m = int (count_status Failed (batch b m))
      \<and> totalFiles m
          = completedFiles m + failedFiles m + activeUploads m + int (length (queue m)))"

text \<open>Between two events, moreover, a batch that has items has an item that is not
  yet counted as completed or failed.\<close>

definition at_rest :: "nat \<Rightarrow> upload_manager \<Rightarrow> bool" where
  "at_rest b m =
     (consistent b m
      \<and> (totalFiles m = 0 \<or> completedFiles m + failedFiles m < totalFiles m))"

text \<open>The manager inside \<^verbatim>\<open>handleUploadComplete\<close>, for the item at \<open>a\<close>, once the
  counters are updated and before the queue is processed again.\<close>

definition counted :: "nat \<Rightarrow> bool \<Rightarrow> upload_manager \<Rightarrow> upload_manager" where
  "counted a success m =
     (let m0 = set_status a (if success then Completed else Failed) m;
          m1 = m0\<lparr>activeUploads := activeUploads m0 - 1\<rparr>
      in if success then m1\<lparr>completedFiles := completedFiles m1 + 1\<rparr>
         else m1\<lparr>failedFiles := failedFiles m1 + 1\<rparr>)"

text \<open>The counter stays below the cap; this needs nothing else and survives cancellation.\<close>

definition within_cap :: "upload_manager \<Rightarrow> bool" where
  "within_cap m = (maxConcurrentUploads m = 3 \<and> activeUploads m \<le> 3)"

subsection \<open>Sample files\<close>

definition jpeg :: "string \<Rightarrow> upload_file" where
  "jpeg n = \<lparr>file_name = n, file_size = 2097152, file_type = ''image/jpeg''\<rparr>"

definition text_file :: upload_file where
  "text_file = \<lparr>file_name = ''notes.txt'', file_size = 12, file_type = ''text/plain''\<rparr>"

definition images_only :: "upload_file \<Rightarrow> bool" where
  "images_only f = (take 6 (file_type f) = ''image/'')"

section \<open>Gallery view-model\<close>

text \<open>
  What the gallery takes from the browser: case conversion and collation of strings, which
  depend on the locale, and the calendar arithmetic of \<^verbatim>\<open>Date\<close>, which depends on the
  time zone. Instants are milliseconds since the epoch. \<open>midnight t\<close> is the result of
  \<^verbatim>\<open>setHours(0, 0, 0, 0)\<close> on the instant \<open>t\<close>, \<open>week_ago t\<close> that of
  \<^verbatim>\<open>setDate(getDate() - 7)\<close>, \<open>month_ago t\<close> that of
  \<^verbatim>\<open>setMonth(getMonth() - 1)\<close> and \<open>year_ago t\<close> that of
  \<^verbatim>\<open>setFullYear(getFullYear() - 1)\<close>.
\<close>

record platform =
  toLowerCase :: "string \<Rightarrow> string"
  localeCompare :: "string \<Rightarrow> string \<Rightarrow> int"
  midnight :: "int \<Rightarrow> int"
  week_ago :: "int \<Rightarrow> int"
  month_ago :: "int \<Rightarrow> int"
  year_ago :: "int \<Rightarrow> int"

text \<open>\<^verbatim>\<open>s.includes(q)\<close>: \<open>q\<close> occurs in \<open>s\<close> as a contiguous piece.\<close>

fun starts_with :: "string \<Rightarrow> string \<Rightarrow> bool" where
  "starts_with s [] = True"
| "starts_with [] (c # q) = False"
| "starts_with (d # s) (c # q) = (d = c \<and> starts_with s q)"

fun js_includes :: "string \<Rightarrow> string \<Rightarrow> bool" where
  "js_includes [] q = (q = [])"
| "js_includes (d # s) q = (starts_with (d # s) q \<or> js_includes s q)"

text \<open>
  The gallery object. \<open>selectedPhotos\<close> is a \<^verbatim>\<open>Set\<close> of photo identifiers: a list
  without repetitions, in insertion order. A photo without a category has the empty string
  for it.
\<close>

record gallery =
  photos :: "photo list"
  filteredPhotos :: "photo list"
  selectedPhotos :: "string list"
  currentSort :: string
  currentFilter :: string
  currentCategory :: string
  searchQuery :: string

definition new_PhotoGallery :: gallery where
  "new_PhotoGallery =
     \<lparr>photos = [], filteredPhotos = [], selectedPhotos = [], currentSort = ''date-desc'',
      currentFilter = ''all'', currentCategory = ''all'', searchQuery = []\<rparr>"

definition Set_add :: "string \<Rightarrow> string list \<Rightarrow> string list" where
  "Set_add x xs = (if x \<in> set xs then xs else xs @ [x])"

definition Set_delete :: "string \<Rightarrow> string list \<Rightarrow> string list" where
  "Set_delete x xs = filter (\<lambda>y. y \<noteq> x) xs"

text \<open>The predicate of the search filter; \<open>query\<close> is the search text in lower case.\<close>

definition matches_search :: "platform \<Rightarrow> string \<Rightarrow> photo \<Rightarrow> bool" where
  "matches_search P query p =
     (js_includes (toLowerCase P (originalName p)) query
      \<or> list_ex (\<lambda>tag. js_includes (toLowerCase P tag) query) (tags p)
      \<or> (category p \<noteq> [] \<and> js_includes (toLowerCase P (category p)) query))"

text \<open>The \<^verbatim>\<open>switch\<close> over the date filter; \<open>t\<close> is the current instant. An unknown
  filter leaves \<^verbatim>\<open>filterDate\<close> at the current instant.\<close>

definition filterDate :: "platform \<Rightarrow> string \<Rightarrow> int \<Rightarrow> int" where
  "filterDate P f t =
     (if f = ''today'' then midnight P t
      else if f = ''week'' then week_ago P t
      else if f = ''month'' then month_ago P t
      else if f = ''year'' then year_ago P t
      else t)"

text \<open>\<^verbatim>\<open>photo.uploadDate >= filterDate\<close>: false when the upload date converts to NaN.\<close>

definition not_before :: "js_date \<Rightarrow> int \<Rightarrow> bool" where
  "not_before d cutoff = (case to_number d of None \<Rightarrow> False | Some t \<Rightarrow> cutoff \<le> t)"

text \<open>\<^verbatim>\<open>x - y\<close> on upload dates, with NaN read as 0 by the sort.\<close>

definition date_minus :: "js_date \<Rightarrow> js_date \<Rightarrow> int" where
  "date_minus x y =
     (case (to_number x, to_number y) of (Some a, Some b) \<Rightarrow> a - b | _ \<Rightarrow> 0)"

definition sort_comparator :: "platform \<Rightarrow> string \<Rightarrow> photo \<Rightarrow> photo \<Rightarrow> int" where
  "sort_comparator P s a b =
     (if s = ''date-desc'' then date_minus (uploadDate b) (uploadDate a)
      else if s = ''date-asc'' then date_minus (uploadDate a) (uploadDate b)
      else if s = ''name-asc'' then localeCompare P (originalName a) (originalName b)
      else if s = ''name-desc'' then localeCompare P (originalName b) (originalName a)
      else if s = ''size-desc'' then size_bytes b - size_bytes a
      else if s = ''size-asc'' then size_bytes a - size_bytes b
      else 0)"

text \<open>\<^verbatim>\<open>filterAndSortPhotos\<close> at the instant \<open>t\<close>. Rendering changes the page only.\<close>

definition filterAndSortPhotos :: "platform \<Rightarrow> int \<Rightarrow> gallery \<Rightarrow> gallery" where
  "filterAndSortPhotos P t g =
     (let filtered = photos g;
          filtered = (if searchQuery g \<noteq> []
                      then filter (matches_search P (toLowerCase P (searchQuery g))) filtered
                      else filtered);
          filtered = (if currentCategory g \<noteq> [] \<and> currentCategory g \<noteq> ''all''
                      then filter (\<lambda>p. category p = currentCategory g) filtered
                      else filtered);
          filtered = (if currentFilter g \<noteq> ''all''
                      then filter (\<lambda>p. not_before (uploadDate p)
                                          (filterDate P (currentFilter g) t)) filtered
                      else filtered)
      in g\<lparr>filteredPhotos := js_sort (sort_comparator P (currentSort g)) filtered\<rparr>)"

text \<open>The listeners of the search box and of the three selectors.\<close>

definition on_search_input :: "platform \<Rightarrow> int \<Rightarrow> string \<Rightarrow> gallery \<Rightarrow> gallery" where
  "on_search_input P t query g = filterAndSortPhotos P t (g\<lparr>searchQuery := query\<rparr>)"

definition on_sort_change :: "platform \<Rightarrow> int \<Rightarrow> string \<Rightarrow> gallery \<Rightarrow> gallery" where
  "on_sort_change P t s g = filterAndSortPhotos P t (g\<lparr>currentSort := s\<rparr>)"

definition on_filter_change :: "platform \<Rightarrow> int \<Rightarrow> string \<Rightarrow> gallery \<Rightarrow> gallery" where
  "on_filter_change P t f g = filterAndSortPhotos P t (g\<lparr>currentFilter := f\<rparr>)"

definition on_category_change :: "platform \<Rightarrow> int \<Rightarrow> string \<Rightarrow> gallery \<Rightarrow> gallery" where
  "on_category_change P t c g = filterAndSortPhotos P t (g\<lparr>currentCategory := c\<rparr>)"

text \<open>
  \<^verbatim>\<open>togglePhotoSelection\<close> first looks the photo's card up in the page. The page shows
  the cards of \<open>filteredPhotos\<close>; for any other identifier the lookup yields
  \<^verbatim>\<open>null\<close> and the next statement throws before the selection is touched.
\<close>

datatype js_error = TypeError

definition togglePhotoSelection :: "string \<Rightarrow> gallery \<Rightarrow> js_error + gallery" where
  "togglePhotoSelection photoId g =
     (if photoId \<notin> set (map photo_id (filteredPhotos g)) then Inl TypeError
      else if photoId \<in> set (selectedPhotos g)
      then Inr (g\<lparr>selectedPhotos := Set_delete photoId (selectedPhotos g)\<rparr>)
      else Inr (g\<lparr>selectedPhotos := Set_add photoId (selectedPhotos g)\<rparr>))"

definition clearSelection :: "gallery \<Rightarrow> gallery" where
  "clearSelection g = g\<lparr>selectedPhotos := []\<rparr>"

definition selectAllPhotos :: "gallery \<Rightarrow> gallery" where
  "selectAllPhotos g =
     (if length (selectedPhotos g) = length (filteredPhotos g) \<and> 0 < length (filteredPhotos g)
      then clearSelection g
      else g\<lparr>selectedPhotos := foldl (\<lambda>sel p. Set_add (photo_id p) sel)
                                   (selectedPhotos g) (filteredPhotos g)\<rparr>)"

subsection \<open>A sample platform and a sample gallery\<close>

text \<open>An English locale restricted to ASCII, in the time zone UTC; for the examples a
  month has 30 days and a year 365.\<close>

definition ascii_lower :: "char \<Rightarrow> char" where
  "ascii_lower c =
     (if 65 \<le> (of_char c :: int) \<and> (of_char c :: int) \<le> 90
      then char_of ((of_char c :: int) + 32) else c)"

fun code_compare :: "string \<Rightarrow> string \<Rightarrow> int" where
  "code_compare [] [] = 0"
| "code_compare [] (c # q) = - 1"
| "code_compare (d # s) [] = 1"
| "code_compare (d # s) (c # q) =
     (if (of_char d :: int) < of_char c then - 1
      else if (of_char c :: int) < of_char d then 1
      else code_compare s q)"

definition utc_platform :: platform where
  "utc_platform =
     \<lparr>toLowerCase = map ascii_lower,
      localeCompare = (\<lambda>a b. code_compare (map ascii_lower a) (map ascii_lower b)),
      midnight = (\<lambda>t. t - t mod 86400000),
      week_ago = (\<lambda>t. t - 7 * 86400000),
      month_ago = (\<lambda>t. t - 30 * 86400000),
      year_ago = (\<lambda>t. t - 365 * 86400000)\<rparr>"

definition sample_gallery :: gallery where
  "sample_gallery =
     new_PhotoGallery
       \<lparr>photos := [example_photo ''beach'' ''travel'' (IsoString 1700000300000),
                   example_photo ''cake'' ''food'' (IsoString 1700000200000),
                   example_photo ''summit'' ''travel'' (IsoString 1700000100000)]\<rparr>"

text \<open>A gallery that shows the photos of the last week and holds one photo, added by the
  upload callback at the instant 1700000000000.\<close>

definition fresh_gallery :: gallery where
  "fresh_gallery =
     new_PhotoGallery
       \<lparr>photos := [example_photo ''new'' [] (DateObj 1700000000000)],
        currentFilter := ''week''\<rparr>"

section \<open>Server\<close>

subsection \<open>The document store\<close>

text \<open>
  The server keeps its records as pages of two databases of an external document store.
  A page of the Users database and a page of the Photos database carry the properties the
  server writes; a photo page also has the store's \<open>archived\<close> flag.
\<close>

record user_page =
  user_page_id :: string
  Username :: string
  Email :: string
  Password :: string
  FullName :: string
  CreatedAt :: int
  LastLogin :: "int option"
  IsActive :: bool

record photo_page =
  archived :: bool
  Name :: string
  OriginalName :: string
  UserId :: string
  Category :: string
  FileSize :: int
  FileType :: string
  Width :: int
  Height :: int
  UploadDate :: int
  ImageKey :: string
  Thumbnail :: string
  Tags :: "string list"

text \<open>
  The state the handlers work on: the two databases, and \<open>imageStore\<close>, the map in the
  server's memory from image keys to base64 data URLs.
\<close>

record server =
  users :: "user_page list"
  photoPages :: "string \<rightharpoonup> photo_page"
  imageStore :: "string \<rightharpoonup> string"

text \<open>
  A call of the store's interface can fail for reasons outside the store's contents
  (network, rate limit, credentials). Which calls of a request fail in this way is an input
  of the handler.
\<close>

record upstream =
  init_throws :: bool
  query_throws :: bool
  create_throws :: bool
  retrieve_throws :: bool
  update_throws :: bool

datatype notion_error = Unavailable | ObjectNotFound | ValidationError

text \<open>\<^verbatim>\<open>notion.pages.retrieve\<close>: an archived page is still retrieved.\<close>

definition pages_retrieve :: "bool \<Rightarrow> server \<Rightarrow> string \<Rightarrow> notion_error + photo_page" where
  "pages_retrieve throws s pid =
     (if throws then Inl Unavailable
      else case photoPages s pid of None \<Rightarrow> Inl ObjectNotFound | Some pg \<Rightarrow> Inr pg)"

text \<open>\<^verbatim>\<open>notion.pages.update\<close> with \<^verbatim>\<open>archived: true\<close>; the store refuses to
  edit a page that is archived already.\<close>

definition pages_archive :: "bool \<Rightarrow> server \<Rightarrow> string \<Rightarrow> notion_error + server" where
  "pages_archive throws s pid =
     (if throws then Inl Unavailable
      else case photoPages s pid of
             None \<Rightarrow> Inl ObjectNotFound
           | Some pg \<Rightarrow>
               if archived pg then Inl ValidationError
               else Inr (s\<lparr>photoPages := (photoPages s)(pid \<mapsto> pg\<lparr>archived := True\<rparr>)\<rparr>))"

text \<open>\<^verbatim>\<open>notion.databases.query\<close> on the Users database with the filter
  ``Username equals \<open>u\<close> or Email equals \<open>e\<close>''.\<close>

definition query_users :: "bool \<Rightarrow> server \<Rightarrow> string \<Rightarrow> string \<Rightarrow> notion_error + user_page list" where
  "query_users throws s u e =
     (if throws then Inl Unavailable
      else Inr (filter (\<lambda>pg. Username pg = u \<or> Email pg = e) (users s)))"

subsection \<open>Requests and responses\<close>

text \<open>The session of a request holds the identifier of the logged-in user, if any.\<close>

type_synonym session = "string option"

text \<open>\<^verbatim>\<open>requireAuth\<close> lets a request pass when \<^verbatim>\<open>req.session.userId\<close> is
  truthy.\<close>

definition authenticated :: "session \<Rightarrow> bool" where
  "authenticated sess = (case sess of None \<Rightarrow> False | Some u \<Rightarrow> u \<noteq> [])"

text \<open>
  A response is an error with its status code and message, or one of the successful
  answers, all with status 200. The body of an image response is the decoding of the
  base64 text it carries here.
\<close>

datatype response =
    Error int string
  | Success
  | Created string
  | UserInfo string string string string
  | ImageBytes string string

fun http_status :: "response \<Rightarrow> int" where
  "http_status (Error code msg) = code"
| "http_status _ = 200"

subsection \<open>Registration\<close>

record register_body =
  username :: string
  email :: string
  password :: string
  fullName :: string

text \<open>
  \<^verbatim>\<open>POST /api/register\<close>. A field that is absent from the body is the empty string.
  The hash function, the identifier the store gives to the new page and the current instant
  are inputs. The handler returns the response, the server and the session.
\<close>

definition register ::
    "upstream \<Rightarrow> (string \<Rightarrow> string) \<Rightarrow> string \<Rightarrow> int \<Rightarrow> register_body \<Rightarrow> session \<Rightarrow> server
       \<Rightarrow> response \<times> server \<times> session" where
  "register U hash new_id now body sess s =
     (if init_throws U then (Error 500 ''Failed to register user'', s, sess)
      else if username body = [] \<or> email body = [] \<or> password body = []
      then (Error 400 ''Username, email, and password are required'', s, sess)
      else case query_users (query_throws U) s (username body) (email body) of
             Inl err \<Rightarrow> (Error 500 ''Failed to register user'', s, sess)
           | Inr existingUser \<Rightarrow>
               if 0 < length existingUser
               then (Error 400 ''Username or email already exists'', s, sess)
               else if create_throws U then (Error 500 ''Failed to register user'', s, sess)
               else
                 let name = (if fullName body = [] then username body else fullName body);
                     user = \<lparr>user_page_id = new_id, Username = username body,
                             Email = email body, Password = hash (password body),
                             FullName = name, CreatedAt = now, LastLogin = None,
                             IsActive = True\<rparr>
                 in (UserInfo new_id (username body) (email body) name,
                     s\<lparr>users := users s @ [user]\<rparr>, Some new_id))"

subsection \<open>Photos and images\<close>

record photo_body =
  body_fileName :: string
  body_originalName :: string
  body_category :: string
  body_size :: int
  body_type :: string
  body_width :: int
  body_height :: int
  body_uploadDate :: "int option"
  body_imageData :: string
  body_tags :: "string list"

definition generateThumbnail :: "string \<Rightarrow> string" where
  "generateThumbnail base64Data =
     (if length base64Data > 2000 then take 1500 base64Data @ ''...'' else base64Data)"

definition or_else :: "string \<Rightarrow> string \<Rightarrow> string" where
  "or_else a b = (if a = [] then b else a)"

text \<open>
  \<^verbatim>\<open>POST /api/photos\<close>. The generated image key, the identifier of the new page and
  the current instant are inputs. The image is put into \<open>imageStore\<close> before the page is
  created.
\<close>

definition add_photo ::
    "upstream \<Rightarrow> string \<Rightarrow> string \<Rightarrow> int \<Rightarrow> photo_body \<Rightarrow> session \<Rightarrow> server \<Rightarrow> response \<times> server" where
  "add_photo U key new_id now photoData sess s =
     (if \<not> authenticated sess then (Error 401 ''Authentication required'', s)
      else if init_throws U then (Error 500 ''Failed to add photo'', s)
      else
        let s1 = (if body_imageData photoData \<noteq> []
                  then s\<lparr>imageStore := (imageStore s)(key \<mapsto> body_imageData photoData)\<rparr>
                  else s);
            thumb = generateThumbnail (body_imageData photoData)
        in if create_throws U then (Error 500 ''Failed to add photo'', s1)
           else
             let pg = \<lparr>archived = False,
                       Name = or_else (body_fileName photoData) ''Untitled Photo'',
                       OriginalName = or_else (body_originalName photoData)
                                        (or_else (body_fileName photoData) ''unknown''),
                       UserId = (case sess of None \<Rightarrow> [] | Some u \<Rightarrow> u),
                       Category = or_else (body_category photoData) ''other'',
                       FileSize = body_size photoData,
                       FileType = or_else (body_type photoData) ''image/jpeg'',
                       Width = body_width photoData,
                       Height = body_height photoData,
                       UploadDate = (case body_uploadDate photoData of None \<Rightarrow> now | Some d \<Rightarrow> d),
                       ImageKey = key,
                       Thumbnail = thumb,
                       Tags = body_tags photoData\<rparr>
             in (Created new_id, s1\<lparr>photoPages := (photoPages s1)(new_id \<mapsto> pg)\<rparr>))"

text \<open>
  The pattern \<^verbatim>\<open>/^data:([A-Za-z-+\/]+);base64,(.+)$/\<close>: the media type is a non-empty
  run of letters, \<open>-\<close>, \<open>+\<close> and \<open>/\<close>; the payload is non-empty and has no line break.
\<close>

definition mime_char :: "char \<Rightarrow> bool" where
  "mime_char c =
     ((65 \<le> (of_char c :: int) \<and> (of_char c :: int) \<le> 90)
      \<or> (97 \<le> (of_char c :: int) \<and> (of_char c :: int) \<le> 122)
      \<or> c = CHR ''-'' \<or> c = CHR ''+'' \<or> c = CHR ''/'')"

definition line_break :: "char \<Rightarrow> bool" where
  "line_break c = ((of_char c :: int) = 10 \<or> (of_char c :: int) = 13)"

definition match_data_url :: "string \<Rightarrow> (string \<times> string) option" where
  "match_data_url imageData =
     (if take 5 imageData \<noteq> ''data:'' then None
      else
        let rest = drop 5 imageData;
            mime = takeWhile mime_char rest;
            rest' = dropWhile mime_char rest;
            base64Data = drop 8 rest'
        in if mime \<noteq> [] \<and> take 8 rest' = '';base64,'' \<and> base64Data \<noteq> []
              \<and> list_all (\<lambda>c. \<not> line_break c) base64Data
           then Some (mime, base64Data) else None)"

text \<open>\<^verbatim>\<open>GET /api/images/:imageKey\<close>. The route is registered without
  \<^verbatim>\<open>requireAuth\<close>, and the handler does not look at the session.\<close>

definition serve_image :: "session \<Rightarrow> server \<Rightarrow> string \<Rightarrow> response" where
  "serve_image sess s key =
     (case imageStore s key of
        None \<Rightarrow> Error 404 ''Image not found''
      | Some imageData \<Rightarrow>
          if imageData = [] then Error 404 ''Image not found''
          else case match_data_url imageData of
                 None \<Rightarrow> Error 400 ''Invalid image data format''
               | Some (mime, base64Data) \<Rightarrow> ImageBytes mime base64Data)"

text \<open>
  \<^verbatim>\<open>DELETE /api/photos/:id\<close>. Whatever the retrieval or the update throws is caught
  and logged. The entry of \<open>imageStore\<close> that is looked up and deleted is the one under
  the page identifier \<open>id\<close>.
\<close>

definition delete_photo :: "upstream \<Rightarrow> session \<Rightarrow> string \<Rightarrow> server \<Rightarrow> response \<times> server" where
  "delete_photo U sess pid s =
     (if \<not> authenticated sess then (Error 401 ''Authentication required'', s)
      else
        let s1 = (case pages_retrieve (retrieve_throws U) s pid of
                    Inl pageError \<Rightarrow> s
                  | Inr page \<Rightarrow>
                      if \<not> archived page
                      then (case pages_archive (update_throws U) s pid of
                              Inl pageError \<Rightarrow> s
                            | Inr s' \<Rightarrow> s')
                      else s);
            s2 = (if imageStore s1 pid \<noteq> None
                  then s1\<lparr>imageStore := (imageStore s1)(pid := None)\<rparr>
                  else s1)
        in (Success, s2))"

subsection \<open>Sample requests\<close>

definition no_outage :: upstream where
  "no_outage = \<lparr>init_throws = False, query_throws = False, create_throws = False,
                 retrieve_throws = False, update_throws = False\<rparr>"

definition empty_server :: server where
  "empty_server = \<lparr>users = [], photoPages = Map.empty, imageStore = Map.empty\<rparr>"

definition ada :: register_body where
  "ada = \<lparr>username = ''ada'', email = ''ada@example.org'', password = ''secret'',
          fullName = ''Ada L''\<rparr>"

definition sample_hash :: "string \<Rightarrow> string" where
  "sample_hash pw = ''$2b$10$'' @ rev pw"

definition server_with_ada :: server where
  "server_with_ada =
     fst (snd (register no_outage sample_hash ''user-1'' 1700000000000 ada None empty_server))"

definition png_upload :: photo_body where
  "png_upload =
     \<lparr>body_fileName = ''1700000000000_cat.png'', body_originalName = ''cat.png'',
      body_category = ''pets'', body_size = 3, body_type = ''image/png'', body_width = 1,
      body_height = 1, body_uploadDate = Some 1700000000000,
      body_imageData = ''data:image/png;base64,AAAA'', body_tags = []\<rparr>"

text \<open>The server after the user \<open>user-1\<close> has uploaded one photo: the store names the
  page \<open>page-1\<close>, the server has generated the image key
  \<open>photo_1700000000000_k3j9x2m1q\<close>.\<close>

definition server_with_photo :: server where
  "server_with_photo =
     snd (add_photo no_outage ''photo_1700000000000_k3j9x2m1q'' ''page-1'' 1700000000000
            png_upload (Some ''user-1'') server_with_ada)"

section \<open>Properties of the memories timeline\<close>

subsection \<open>The sort\<close>

lemma mset_js_insert: "mset (js_insert cmp x ys) = add_mset x (mset ys)"
  by (induction ys) auto

lemma mset_js_sort: "mset (js_sort cmp xs) = mset xs"
  by (induction xs) (auto simp: js_sort_def mset_js_insert)

lemma length_js_sort: "length (js_sort cmp xs) = length xs"
  using mset_js_sort [of cmp xs] by (metis size_mset)

lemma set_js_insert: "set (js_insert cmp x ys) = insert x (set ys)"
  by (induction ys) auto

lemma sorted_js_insert:
  assumes "\<And>a b. cmp a b = f a - f b" and "sorted_wrt (\<lambda>a b. (f a :: int) \<le> f b) ys"
  shows "sorted_wrt (\<lambda>a b. f a \<le> f b) (js_insert cmp x ys)"
  using assms(2)
proof (induction ys)
  case Nil
  then show ?case by simp
next
  case (Cons y ys)
  show ?case
  proof (cases "cmp x y > 0")
    case True
    then have "f y \<le> f x" using assms(1) [of x y] by simp
    with Cons True show ?thesis by (auto simp: set_js_insert)
  next
    case False
    then have "f x \<le> f y" using assms(1) [of x y] by simp
    with Cons False show ?thesis by auto
  qed
qed

lemma sorted_js_sort:
  assumes "\<And>a b. cmp a b = f a - f b"
  shows "sorted_wrt (\<lambda>a b. (f a :: int) \<le> f b) (js_sort cmp xs)"
proof (induction xs)
  case Nil
  show ?case by (simp add: js_sort_def)
next
  case (Cons x xs)
  have "js_sort cmp (x # xs) = js_insert cmp x (js_sort cmp xs)" by (simp add: js_sort_def)
  with Cons sorted_js_insert [OF assms] show ?case by simp
qed

lemma take4_nth:
  assumes "4 \<le> length xs"
  shows "take 4 xs = [xs ! 0, xs ! 1, xs ! 2, xs ! 3]"
proof (rule nth_equalityI)
  show "length (take 4 xs) = length [xs ! 0, xs ! 1, xs ! 2, xs ! 3]" using assms by simp
next
  fix i assume "i < length (take 4 xs)"
  then have "i < 4" by simp
  then consider "i = 0" | "i = 1" | "i = 2" | "i = 3" by linarith
  then show "take 4 xs ! i = [xs ! 0, xs ! 1, xs ! 2, xs ! 3] ! i"
    by cases simp_all
qed

subsection \<open>Representative photos\<close>

text \<open>
  Claim C4, as the code has it. For a day with more than four photos the selection is
  \<open>sorted[0]\<close>, \<open>sorted[step]\<close>, \<open>sorted[2 * step]\<close>, \<open>sorted[3 * step]\<close>, where
  \<open>sorted\<close> is the day's photos in ascending upload time and \<open>step\<close> is the number of
  photos divided by four, rounded down. The four indices lie inside the list. With five to
  seven photos the step is one and the selection is the first four photos of the sorted day;
  from eight photos on the step is at least two.
\<close>

theorem selectRepresentativePhotos_spacing:
  assumes "length ps > 4"
  shows "let sorted = js_sort by_upload_time ps; step = length ps div 4 in
     selectRepresentativePhotos ps = map (\<lambda>i. sorted ! (i * step)) [0, 1, 2, 3]
     \<and> 3 * step < length sorted
     \<and> mset sorted = mset ps
     \<and> sorted_wrt (\<lambda>a b. new_Date (uploadDate a) \<le> new_Date (uploadDate b)) sorted
     \<and> (length ps < 8 \<longrightarrow> selectRepresentativePhotos ps = take 4 sorted)
     \<and> (8 \<le> length ps \<longrightarrow> 2 \<le> step)"
proof -
  define sorted where "sorted = js_sort by_upload_time ps"
  define step where "step = length ps div 4"
  have len: "length sorted = length ps" by (simp add: sorted_def length_js_sort)
  have s3: "3 * step < length ps" using assms unfolding step_def by linarith
  have idx: "nat (min (int i * (int (length ps) div 4)) (int (length ps) - 1)) = i * step"
    if "i \<le> 3" for i
  proof -
    have "i * step \<le> 3 * step" using that by simp
    then have "i * step < length ps" using s3 by linarith
    moreover have "int (length ps) div 4 = int step"
      by (simp add: step_def zdiv_int)
    then have e: "int i * (int (length ps) div 4) = int (i * step)" by simp
    ultimately have "min (int (i * step)) (int (length ps) - 1) = int (i * step)" by linarith
    then show ?thesis by (simp only: e nat_int)
  qed
  have sel: "selectRepresentativePhotos ps = map (\<lambda>i. sorted ! (i * step)) [0, 1, 2, 3]"
    using assms idx [of 0] idx [of 1] idx [of 2] idx [of 3]
    by (simp add: selectRepresentativePhotos_def Let_def len sorted_def [symmetric])
  have srt: "sorted_wrt (\<lambda>a b. new_Date (uploadDate a) \<le> new_Date (uploadDate b)) sorted"
    unfolding sorted_def
    by (rule sorted_js_sort [where f = "\<lambda>p. new_Date (uploadDate p)"]) (simp add: by_upload_time_def)
  have small: "selectRepresentativePhotos ps = take 4 sorted" if "length ps < 8"
  proof -
    have "step = 1" using assms that unfolding step_def by linarith
    then show ?thesis using sel take4_nth [of sorted] assms len by simp
  qed
  have big: "2 \<le> step" if "8 \<le> length ps"
    using that unfolding step_def by linarith
  show ?thesis
    unfolding Let_def sorted_def [symmetric] step_def [symmetric]
    using sel s3 len srt small big by (simp add: sorted_def mset_js_sort)
qed

theorem selectRepresentativePhotos_spacing_witness:
  "4 < length day_of_nine \<and>
   map (\<lambda>p. new_Date (uploadDate p)) (selectRepresentativePhotos day_of_nine) = [10, 30, 50, 70]"
proof -
  have h: "4 < length day_of_nine" by (simp add: day_of_nine_def)
  have s: "js_sort by_upload_time day_of_nine
     = map (\<lambda>t. example_photo ''p'' ''travel'' (IsoString t)) [10, 20, 30, 40, 50, 60, 70, 80, 90]"
    by code_simp
  have l: "length day_of_nine = 9" by (simp add: day_of_nine_def)
  show ?thesis
    using h selectRepresentativePhotos_spacing [OF h]
    by (simp add: Let_def s l example_photo_def)
qed

text \<open>
  Claim C4 as stated fails: for a day of five photos the selection is exactly the first
  four photos of the sorted day.
\<close>

theorem selectRepresentativePhotos_first_four:
  "4 < length day_of_five
   \<and> map (\<lambda>p. new_Date (uploadDate p)) (js_sort by_upload_time day_of_five)
       = [10, 20, 30, 40, 50]
   \<and> map (\<lambda>p. new_Date (uploadDate p)) (selectRepresentativePhotos day_of_five)
       = [10, 20, 30, 40]
   \<and> selectRepresentativePhotos day_of_five = take 4 (js_sort by_upload_time day_of_five)"
  by code_simp

subsection \<open>Dominant category\<close>

lemma first_occ_snoc:
  "first_occ (xs @ [x]) = (if x \<in> set xs then first_occ xs else first_occ xs @ [x])"
  by (simp add: first_occ_def)

lemma set_first_occ: "set (first_occ xs) = set xs"
  by (simp add: first_occ_def)

lemma distinct_first_occ: "distinct (first_occ xs)"
  by (simp add: first_occ_def)

lemma takeWhile_first_occ:
  "set (takeWhile (\<lambda>c. c \<noteq> r) (first_occ xs)) = set (takeWhile (\<lambda>c. c \<noteq> r) xs)"
proof (induction xs rule: rev_induct)
  case Nil
  show ?case by (simp add: first_occ_def)
next
  case (snoc x xs)
  show ?case
  proof (cases "r \<in> set xs")
    case True
    then have "r \<in> set (first_occ xs)" by (simp add: set_first_occ)
    with True snoc show ?thesis
      by (simp add: first_occ_snoc takeWhile_append1 takeWhile_append2)
  next
    case False
    then have a: "takeWhile (\<lambda>c. c \<noteq> r) xs = xs"
      by (auto simp: takeWhile_eq_all_conv)
    from False have b: "takeWhile (\<lambda>c. c \<noteq> r) (first_occ xs) = first_occ xs"
      by (auto simp: takeWhile_eq_all_conv set_first_occ)
    have c: "takeWhile (\<lambda>c. c \<noteq> r) (xs @ [x]) = xs @ takeWhile (\<lambda>c. c \<noteq> r) [x]"
      by (rule takeWhile_append2) (use False in auto)
    have d: "takeWhile (\<lambda>c. c \<noteq> r) (first_occ xs @ [x])
        = first_occ xs @ takeWhile (\<lambda>c. c \<noteq> r) [x]"
      by (rule takeWhile_append2) (use False in \<open>auto simp: set_first_occ\<close>)
    show ?thesis
      by (auto simp: first_occ_snoc a b c d set_first_occ)
  qed
qed

lemma map_of_counts:
  "map_of (map (\<lambda>c. (c, Some (f c))) ks) x = (if x \<in> set ks then Some (Some (f x)) else None)"
  by (induction ks) auto

lemma assign_present:
  assumes "x \<in> set ks"
  shows "assign (map (\<lambda>c. (c, Some (f c))) ks) x (Some v)
         = map (\<lambda>c. (c, Some (if c = x then v else f c))) ks"
proof -
  have "x \<in> fst ` set (map (\<lambda>c. (c, Some (f c))) ks)" using assms by force
  then show ?thesis by (simp add: assign_def)
qed

lemma assign_absent:
  assumes "x \<notin> set ks"
  shows "assign (map (\<lambda>c. (c, Some (f c))) ks) x v = map (\<lambda>c. (c, Some (f c))) ks @ [(x, v)]"
proof -
  have "x \<notin> fst ` set (map (\<lambda>c. (c, Some (f c))) ks)" using assms by force
  then show ?thesis by (simp add: assign_def)
qed

lemma count_fold:
  assumes "\<forall>c \<in> set cats. c \<notin> set object_prototype_keys \<and> c \<noteq> ''__proto__''"
  shows "foldl count_category [] cats
         = map (\<lambda>c. (c, Some (int (count_list cats c)))) (first_occ cats)"
  using assms
proof (induction cats rule: rev_induct)
  case Nil
  show ?case by (simp add: first_occ_def)
next
  case (snoc x xs)
  then have IH: "foldl count_category [] xs
         = map (\<lambda>c. (c, Some (int (count_list xs c)))) (first_occ xs)" by simp
  from snoc.prems have px: "x \<notin> set object_prototype_keys" "x \<noteq> ''__proto__''" by simp_all
  have step: "foldl count_category [] (xs @ [x])
      = count_category (map (\<lambda>c. (c, Some (int (count_list xs c)))) (first_occ xs)) x"
    by (simp only: foldl_append foldl.simps IH)
  show ?case
  proof (cases "x \<in> set xs")
    case True
    then have "x \<in> set (first_occ xs)" by (simp add: set_first_occ)
    then show ?thesis using True unfolding step
      by (simp add: count_category_def map_of_counts assign_present first_occ_snoc)
  next
    case False
    then have "x \<notin> set (first_occ xs)" by (simp add: set_first_occ)
    then show ?thesis using False px unfolding step
      by (auto simp: count_category_def map_of_counts assign_absent first_occ_snoc set_first_occ)
  qed
qed

lemma entries_plain:
  assumes "\<forall>(k, v) \<in> set obj. array_index k = None"
  shows "Object_entries obj = obj"
proof -
  have "filter (\<lambda>(k, v). array_index k \<noteq> None) obj = []"
    using assms by (auto simp: filter_empty_conv)
  moreover have "filter (\<lambda>(k, v). array_index k = None) obj = obj"
    using assms by (auto simp: filter_id_conv)
  ultimately show ?thesis by (simp add: Object_entries_def)
qed

lemma js_sort_Cons: "js_sort cmp (x # xs) = js_insert cmp x (js_sort cmp xs)"
  by (simp add: js_sort_def)

lemma sort_counts_head:
  assumes "ks \<noteq> []"
  shows "\<exists>c rest. js_sort by_count_desc (map (\<lambda>c. (c, Some (g c))) ks) = (c, Some (g c)) # rest
           \<and> c \<in> set ks \<and> (\<forall>k \<in> set ks. g k \<le> g c)
           \<and> (\<forall>k \<in> set (takeWhile (\<lambda>k. k \<noteq> c) ks). g k < g c)"
  using assms
proof (induction ks)
  case Nil
  then show ?case by simp
next
  case (Cons k ks)
  show ?case
  proof (cases "ks = []")
    case True
    then show ?thesis by (simp add: js_sort_def)
  next
    case False
    with Cons.IH obtain c rest where
      s: "js_sort by_count_desc (map (\<lambda>c. (c, Some (g c))) ks) = (c, Some (g c)) # rest"
      and c: "c \<in> set ks" and mx: "\<forall>k \<in> set ks. g k \<le> g c"
      and tw: "\<forall>k \<in> set (takeWhile (\<lambda>k. k \<noteq> c) ks). g k < g c" by blast
    show ?thesis
    proof (cases "g c - g k > 0")
      case True
      then have "k \<noteq> c" by auto
      with True s c mx tw show ?thesis
        by (auto simp: js_sort_Cons)
    next
      case False
      with s c mx show ?thesis
        by (auto simp: js_sort_Cons intro: order_trans)
    qed
  qed
qed

text \<open>
  Claim C7, as the code has it. For a non-empty day whose category names are plain (not
  empty, not an array index, not a member of \<^verbatim>\<open>Object.prototype\<close>), the dominant
  category is one of the day's categories, no category of the day occurs more often, and
  every category met before its first occurrence occurs strictly less often: among the most
  frequent categories the first one encountered wins.
\<close>

theorem getMostCommonCategory_plain:
  assumes "ps \<noteq> []" and "\<forall>p \<in> set ps. plain_category (category p)"
  shows "let cats = map category ps; r = getMostCommonCategory ps in
           r \<in> set cats
         \<and> (\<forall>c \<in> set cats. count_list cats c \<le> count_list cats r)
         \<and> (\<forall>c \<in> set (takeWhile (\<lambda>c. c \<noteq> r) cats). count_list cats c < count_list cats r)"
proof -
  define cats where "cats = map category ps"
  have pl: "\<forall>c \<in> set cats. plain_category c" using assms(2) by (simp add: cats_def)
  have ne: "first_occ cats \<noteq> []"
    using assms(1) set_first_occ [of cats] by (auto simp: cats_def)
  have cf: "foldl count_category [] cats
         = map (\<lambda>c. (c, Some (int (count_list cats c)))) (first_occ cats)"
    using pl by (intro count_fold) (simp add: plain_category_def)
  have en: "Object_entries (map (\<lambda>c. (c, Some (int (count_list cats c)))) (first_occ cats))
      = map (\<lambda>c. (c, Some (int (count_list cats c)))) (first_occ cats)"
    using pl by (intro entries_plain) (auto simp: set_first_occ plain_category_def)
  from sort_counts_head [OF ne, of "\<lambda>c. int (count_list cats c)"] obtain c rest where
    s: "js_sort by_count_desc (map (\<lambda>c. (c, Some (int (count_list cats c)))) (first_occ cats))
         = (c, Some (int (count_list cats c))) # rest"
    and c: "c \<in> set (first_occ cats)"
    and mx: "\<forall>k \<in> set (first_occ cats). int (count_list cats k) \<le> int (count_list cats c)"
    and tw: "\<forall>k \<in> set (takeWhile (\<lambda>k. k \<noteq> c) (first_occ cats)).
               int (count_list cats k) < int (count_list cats c)" by blast
  from c pl have "c \<noteq> []" by (auto simp: set_first_occ plain_category_def)
  then have r: "getMostCommonCategory ps = c"
    by (simp add: getMostCommonCategory_def cats_def [symmetric] en cf s)
  show ?thesis
    unfolding Let_def cats_def [symmetric] r
    using c mx tw by (simp add: set_first_occ takeWhile_first_occ)
qed

theorem getMostCommonCategory_plain_witness:
  "mixed_day \<noteq> [] \<and> list_all (\<lambda>p. plain_category (category p)) mixed_day \<and>
   getMostCommonCategory mixed_day = ''food''"
proof -
  have h1: "mixed_day \<noteq> []" by (simp add: mixed_day_def)
  have c: "map category mixed_day = [''food'', ''travel'', ''travel'', ''food'', ''pets'']"
    by (simp add: mixed_day_def example_photo_def)
  have h2: "\<forall>p \<in> set mixed_day. plain_category (category p)"
    by code_simp
  from getMostCommonCategory_plain [OF h1 h2]
  have "getMostCommonCategory mixed_day \<in> set (map category mixed_day)"
    and "\<forall>c \<in> set (takeWhile (\<lambda>c. c \<noteq> getMostCommonCategory mixed_day) (map category mixed_day)).
          count_list (map category mixed_day) c < count_list (map category mixed_day) (getMostCommonCategory mixed_day)"
    by (simp_all add: Let_def)
  then have "getMostCommonCategory mixed_day = ''food''"
    unfolding c by auto
  with h1 h2 show ?thesis by (simp add: list_all_iff)
qed

text \<open>
  Claim C7 as stated fails for a category whose name is an array index: with one photo in
  ``travel'' followed by one photo in ``7'', both categories occur once, ``travel'' is
  met first, and the dominant category is ``7''.
\<close>

theorem getMostCommonCategory_index_name_first:
  "map category tied_day = [''travel'', ''7''] \<and> getMostCommonCategory tied_day = ''7''"
  by code_simp

section \<open>Properties of the upload queue manager\<close>

subsection \<open>Counting items by status\<close>

lemma count_status_snoc:
  "count_status st (xs @ [x]) = count_status st xs + (if status x = st then 1 else 0)"
  by (induction xs) (auto simp: count_status_def)

lemma count_status_update:
  "a < length xs \<Longrightarrow>
   int (count_status st (xs[a := x]))
     = int (count_status st xs) - (if status (xs ! a) = st then 1 else 0)
       + (if status x = st then 1 else 0)"
  unfolding count_status_def
proof (induction xs arbitrary: a)
  case Nil
  then show ?case by simp
next
  case (Cons y ys)
  show ?case
  proof (cases a)
    case 0
    then show ?thesis by simp
  next
    case (Suc a')
    with Cons.prems have "a' < length ys" by simp
    from Cons.IH [OF this] Suc show ?thesis by (auto split: if_splits)
  qed
qed

lemma count_status_batch_update:
  assumes "a < length xs" and "b \<le> a"
  shows "int (count_status st (drop b (xs[a := x])))
     = int (count_status st (drop b xs)) - (if status (xs ! a) = st then 1 else 0)
       + (if status x = st then 1 else 0)"
proof -
  have "drop b (xs[a := x]) = (drop b xs)[a - b := x]"
    using assms by (simp add: drop_update_swap)
  moreover have "a - b < length (drop b xs)" using assms by simp
  moreover have "drop b xs ! (a - b) = xs ! a" using assms by simp
  ultimately show ?thesis using count_status_update [of "a - b" "drop b xs" st x] by simp
qed

lemma terminal_take:
  "b \<le> length xs \<Longrightarrow> list_all terminal (take b xs) = (\<forall>a<b. terminal (xs ! a))"
  by (auto simp: list_all_length)

lemma pending_range:
  "list_all P [0 ..< n] = (\<forall>a<n. P a)"
  by (auto simp: list_all_iff)

lemma consistent_iff:
  "consistent b m =
     (maxConcurrentUploads m = 3
      \<and> distinct (queue m)
      \<and> (\<forall>a \<in> set (queue m). a < length (items m) \<and> status (items m ! a) = Pending)
      \<and> (\<forall>a < length (items m). status (items m ! a) = Pending \<longrightarrow> a \<in> set (queue m))
      \<and> activeUploads m = int (count_status Uploading (items m))
      \<and> activeUploads m \<le> 3
      \<and> b \<le> length (items m)
      \<and> (\<forall>a < b. terminal (items m ! a))
      \<and> totalFiles m = int (length (batch b m))
      \<and> completedFiles m = int (count_status Completed (batch b m))
      \<and> failedFiles m = int (count_status Failed (batch b m))
      \<and> totalFiles m
          = completedFiles m + failedFiles m + activeUploads m + int (length (queue m)))"
  unfolding consistent_def pending_range
  using terminal_take [of b "items m"] by (auto simp: list_all_iff)

lemma consistentD:
  assumes "consistent b m"
  shows "maxConcurrentUploads m = 3" and "distinct (queue m)"
    and "\<And>a. a \<in> set (queue m) \<Longrightarrow> a < length (items m) \<and> status (items m ! a) = Pending"
    and "\<And>a. a < length (items m) \<Longrightarrow> status (items m ! a) = Pending \<Longrightarrow> a \<in> set (queue m)"
    and "activeUploads m = int (count_status Uploading (items m))"
    and "activeUploads m \<le> 3"
    and "b \<le> length (items m)"
    and "\<And>a. a < b \<Longrightarrow> terminal (items m ! a)"
    and "totalFiles m = int (length (batch b m))"
    and "completedFiles m = int (count_status Completed (batch b m))"
    and "failedFiles m = int (count_status Failed (batch b m))"
    and "totalFiles m = completedFiles m + failedFiles m + activeUploads m + int (length (queue m))"
  using assms unfolding consistent_iff by blast+

lemma consistentI:
  assumes "maxConcurrentUploads m = 3" and "distinct (queue m)"
    and "\<And>a. a \<in> set (queue m) \<Longrightarrow> a < length (items m) \<and> status (items m ! a) = Pending"
    and "\<And>a. a < length (items m) \<Longrightarrow> status (items m ! a) = Pending \<Longrightarrow> a \<in> set (queue m)"
    and "activeUploads m = int (count_status Uploading (items m))"
    and "activeUploads m \<le> 3"
    and "b \<le> length (items m)"
    and "\<And>a. a < b \<Longrightarrow> terminal (items m ! a)"
    and "totalFiles m = int (length (batch b m))"
    and "completedFiles m = int (count_status Completed (batch b m))"
    and "failedFiles m = int (count_status Failed (batch b m))"
    and "totalFiles m = completedFiles m + failedFiles m + activeUploads m + int (length (queue m))"
  shows "consistent b m"
  unfolding consistent_iff using assms by blast

subsection \<open>Processing the queue\<close>

lemma set_status_fields [simp]:
  "queue (set_status a st m) = queue m"
  "activeUploads (set_status a st m) = activeUploads m"
  "maxConcurrentUploads (set_status a st m) = maxConcurrentUploads m"
  "totalFiles (set_status a st m) = totalFiles m"
  "completedFiles (set_status a st m) = completedFiles m"
  "failedFiles (set_status a st m) = failedFiles m"
  "length (items (set_status a st m)) = length (items m)"
  by (simp_all add: set_status_def)

lemma set_status_nth:
  "a' < length (items m) \<Longrightarrow>
   status (items (set_status a st m) ! a') = (if a' = a then st else status (items m ! a'))"
  by (simp add: set_status_def nth_list_update)

lemma set_status_terminal:
  "a' < length (items m) \<Longrightarrow> a' \<noteq> a \<Longrightarrow>
   terminal (items (set_status a st m) ! a') = terminal (items m ! a')"
  by (simp add: set_status_def terminal_def)

lemma set_status_count:
  "a < length (items m) \<Longrightarrow>
   int (count_status s (items (set_status a st m)))
     = int (count_status s (items m)) - (if status (items m ! a) = s then 1 else 0)
       + (if st = s then 1 else 0)"
  by (simp add: set_status_def count_status_update)

lemma set_status_batch_count:
  "a < length (items m) \<Longrightarrow> b \<le> a \<Longrightarrow>
   int (count_status s (batch b (set_status a st m)))
     = int (count_status s (batch b m)) - (if status (items m ! a) = s then 1 else 0)
       + (if st = s then 1 else 0)"
  by (simp add: set_status_def batch_def count_status_batch_update)

lemma set_status_batch_length [simp]:
  "length (batch b (set_status a st m)) = length (batch b m)"
  by (simp add: batch_def)

lemma batch_fields [simp]:
  "batch b (m\<lparr>queue := q\<rparr>) = batch b m"
  "batch b (m\<lparr>activeUploads := n\<rparr>) = batch b m"
  "batch b (m\<lparr>totalFiles := n\<rparr>) = batch b m"
  "batch b (m\<lparr>completedFiles := n\<rparr>) = batch b m"
  "batch b (m\<lparr>failedFiles := n\<rparr>) = batch b m"
  by (simp_all add: batch_def)

lemma not_terminal_above:
  assumes "consistent b m" and "a < length (items m)" and "\<not> terminal (items m ! a)"
  shows "b \<le> a"
  using consistentD(8) [OF assms(1), of a] assms(3) by (cases "a < b") auto

lemma admit_consistent:
  assumes c: "consistent b m" and q: "queue m = a # rest"
    and lt: "activeUploads m < maxConcurrentUploads m"
  shows "consistent b (uploadFile_begin a (m\<lparr>queue := rest, activeUploads := activeUploads m + 1\<rparr>))"
proof -
  let ?m1 = "m\<lparr>queue := rest, activeUploads := activeUploads m + 1\<rparr>"
  let ?m' = "set_status a Uploading ?m1"
  note d = consistentD [OF c]
  have a: "a < length (items m)" "status (items m ! a) = Pending"
    using d(3) [of a] q by simp_all
  have nt: "\<not> terminal (items m ! a)" using a by (simp add: terminal_def)
  have ba: "b \<le> a" using not_terminal_above [OF c a(1) nt] .
  have ar: "a \<notin> set rest" "distinct rest" using d(2) q by simp_all
  have it: "items ?m1 = items m" by simp
  have a1: "a < length (items ?m1)" using a by simp
  show ?thesis
    unfolding uploadFile_begin_def
  proof (rule consistentI)
    show "maxConcurrentUploads ?m' = 3" using d(1) by simp
    show "distinct (queue ?m')" using ar by simp
    show "a' < length (items ?m') \<and> status (items ?m' ! a') = Pending"
      if "a' \<in> set (queue ?m')" for a'
    proof -
      from that have r: "a' \<in> set rest" by simp
      then have "a' \<in> set (queue m)" using q by simp
      from d(3) [OF this] have "a' < length (items m)" "status (items m ! a') = Pending" by simp_all
      moreover have "a' \<noteq> a" using r ar by auto
      ultimately show ?thesis using set_status_nth [of a' ?m1 a Uploading] by simp
    qed
    show "a' \<in> set (queue ?m')"
      if "a' < length (items ?m')" and "status (items ?m' ! a') = Pending" for a'
    proof -
      from that(1) have l: "a' < length (items m)" by simp
      have ne: "a' \<noteq> a" using that(2) set_status_nth [of a' ?m1 a Uploading] l by auto
      then have "status (items m ! a') = Pending"
        using that(2) set_status_nth [of a' ?m1 a Uploading] l by simp
      from d(4) [OF l this] ne q show ?thesis by simp
    qed
    show "activeUploads ?m' = int (count_status Uploading (items ?m'))"
      using set_status_count [OF a1, of Uploading Uploading] a d(5) by simp
    show "activeUploads ?m' \<le> 3" using lt d(1) by simp
    show "b \<le> length (items ?m')" using d(7) by simp
    show "terminal (items ?m' ! a')" if "a' < b" for a'
    proof -
      have "a' \<noteq> a" "a' < length (items ?m1)" using that ba d(7) by simp_all
      then show ?thesis using set_status_terminal [of a' ?m1 a Uploading] d(8) [OF that] by simp
    qed
    show "totalFiles ?m' = int (length (batch b ?m'))" using d(9) by simp
    show "completedFiles ?m' = int (count_status Completed (batch b ?m'))"
      using set_status_batch_count [OF a1 ba, of Completed Uploading] a d(10) by simp
    show "failedFiles ?m' = int (count_status Failed (batch b ?m'))"
      using set_status_batch_count [OF a1 ba, of Failed Uploading] a d(11) by simp
    show "totalFiles ?m' = completedFiles ?m' + failedFiles ?m' + activeUploads ?m'
            + int (length (queue ?m'))"
      using d(12) q by simp
  qed
qed

lemma processQueue_consistent:
  "consistent b m \<Longrightarrow> consistent b (processQueue m)"
proof (induction m rule: processQueue.induct)
  case (1 m)
  show ?case
  proof (cases "queue m")
    case Nil
    then show ?thesis using "1.prems" by simp
  next
    case (Cons a rest)
    show ?thesis
    proof (cases "activeUploads m < maxConcurrentUploads m")
      case True
      from "1.IH" [OF Cons True admit_consistent [OF "1.prems" Cons True]]
      show ?thesis using Cons True by simp
    next
      case False
      then show ?thesis using Cons "1.prems" by simp
    qed
  qed
qed

lemma processQueue_items_length [simp]:
  "length (items (processQueue m)) = length (items m)"
proof (induction m rule: processQueue.induct)
  case (1 m)
  show ?case
  proof (cases "queue m")
    case Nil
    then show ?thesis by simp
  next
    case (Cons a rest)
    show ?thesis
    proof (cases "activeUploads m < maxConcurrentUploads m")
      case True
      from "1.IH" [OF Cons True] show ?thesis using Cons True
        by (simp add: uploadFile_begin_def)
    next
      case False
      then show ?thesis using Cons by simp
    qed
  qed
qed

lemma processQueue_counters [simp]:
  "maxConcurrentUploads (processQueue m) = maxConcurrentUploads m"
  "totalFiles (processQueue m) = totalFiles m"
  "completedFiles (processQueue m) = completedFiles m"
  "failedFiles (processQueue m) = failedFiles m"
proof (induction m rule: processQueue.induct)
  case (1 m)
  {
    case 1
    show ?case
    proof (cases "queue m")
      case Nil
      then show ?thesis by simp
    next
      case (Cons a rest)
      then show ?thesis using "1.IH"(1) [OF Cons]
        by (cases "activeUploads m < maxConcurrentUploads m") (simp_all add: uploadFile_begin_def)
    qed
  next
    case 2
    show ?case
    proof (cases "queue m")
      case Nil
      then show ?thesis by simp
    next
      case (Cons a rest)
      then show ?thesis using "1.IH"(2) [OF Cons]
        by (cases "activeUploads m < maxConcurrentUploads m") (simp_all add: uploadFile_begin_def)
    qed
  next
    case 3
    show ?case
    proof (cases "queue m")
      case Nil
      then show ?thesis by simp
    next
      case (Cons a rest)
      then show ?thesis using "1.IH"(3) [OF Cons]
        by (cases "activeUploads m < maxConcurrentUploads m") (simp_all add: uploadFile_begin_def)
    qed
  next
    case 4
    show ?case
    proof (cases "queue m")
      case Nil
      then show ?thesis by simp
    next
      case (Cons a rest)
      then show ?thesis using "1.IH"(4) [OF Cons]
        by (cases "activeUploads m < maxConcurrentUploads m") (simp_all add: uploadFile_begin_def)
    qed
  }
qed

lemma processQueue_bounded:
  "activeUploads m \<le> maxConcurrentUploads m \<Longrightarrow>
   activeUploads (processQueue m) \<le> maxConcurrentUploads m"
proof (induction m rule: processQueue.induct)
  case (1 m)
  show ?case
  proof (cases "queue m")
    case Nil
    then show ?thesis using "1.prems" by simp
  next
    case (Cons a rest)
    show ?thesis
    proof (cases "activeUploads m < maxConcurrentUploads m")
      case True
      from "1.IH" [OF Cons True] True show ?thesis using Cons
        by (simp add: uploadFile_begin_def)
    next
      case False
      then show ?thesis using Cons "1.prems" by simp
    qed
  qed
qed

lemma processQueue_admitted:
  "activeUploads (processQueue m) - activeUploads m
     = int (length (queue m)) - int (length (queue (processQueue m)))"
proof (induction m rule: processQueue.induct)
  case (1 m)
  show ?case
  proof (cases "queue m")
    case Nil
    then show ?thesis by simp
  next
    case (Cons a rest)
    show ?thesis
    proof (cases "activeUploads m < maxConcurrentUploads m")
      case True
      from "1.IH" [OF Cons True] True show ?thesis using Cons
        by (simp add: uploadFile_begin_def)
    next
      case False
      then show ?thesis using Cons by simp
    qed
  qed
qed

lemma processQueue_queue_shorter:
  "length (queue (processQueue m)) \<le> length (queue m)"
proof (induction m rule: processQueue.induct)
  case (1 m)
  show ?case
  proof (cases "queue m")
    case Nil
    then show ?thesis by simp
  next
    case (Cons a rest)
    show ?thesis
    proof (cases "activeUploads m < maxConcurrentUploads m")
      case True
      from "1.IH" [OF Cons True] True show ?thesis using Cons
        by (simp add: uploadFile_begin_def)
    next
      case False
      then show ?thesis using Cons by simp
    qed
  qed
qed

subsection \<open>Adding files and settling uploads\<close>

declare processQueue.simps [simp del]

lemma count_status_append:
  "count_status st (xs @ ys) = count_status st xs + count_status st ys"
  by (induction xs) (auto simp: count_status_def)

lemma count_status_pending_new:
  "st \<noteq> Pending \<Longrightarrow>
   count_status st (map (\<lambda>f. \<lparr>item_file = f, status = Pending\<rparr>) fs) = 0"
  by (induction fs) (auto simp: count_status_def)

lemma count_status_zero:
  "(\<And>a. a < length xs \<Longrightarrow> status (xs ! a) \<noteq> st) \<Longrightarrow> count_status st xs = 0"
proof (induction xs)
  case Nil
  show ?case by (simp add: count_status_def)
next
  case (Cons x xs)
  have "status x \<noteq> st" using Cons.prems [of 0] by simp
  moreover have "count_status st xs = 0"
  proof (rule Cons.IH)
    fix a assume "a < length xs"
    then show "status (xs ! a) \<noteq> st" using Cons.prems [of "Suc a"] by simp
  qed
  ultimately show ?case by (simp add: count_status_def)
qed

lemma count_status_zeroD:
  "count_status st xs = 0 \<Longrightarrow> a < length xs \<Longrightarrow> status (xs ! a) \<noteq> st"
proof (induction xs arbitrary: a)
  case Nil
  then show ?case by simp
next
  case (Cons x xs)
  then show ?case
    by (cases a) (auto simp: count_status_def split: if_splits)
qed

lemma add_files_closed_form:
  "foldl (add_file v) m fs
     = m\<lparr>items := items m @ map (\<lambda>f. \<lparr>item_file = f, status = Pending\<rparr>) (filter v fs),
          queue := queue m @ [length (items m) ..< length (items m) + length (filter v fs)]\<rparr>"
proof (induction fs arbitrary: m)
  case Nil
  show ?case by simp
next
  case (Cons f fs)
  show ?case
  proof (cases "v f")
    case True
    have "[length (items m) ..< length (items m) + Suc (length (filter v fs))]
        = length (items m) # [Suc (length (items m)) ..< length (items m) + Suc (length (filter v fs))]"
      by (rule upt_conv_Cons) simp
    then show ?thesis using True Cons.IH by (simp add: add_file_def)
  next
    case False
    then show ?thesis using Cons.IH by (simp add: add_file_def)
  qed
qed

lemma addFiles_consistent:
  assumes c: "consistent b m"
  shows "consistent b (addFiles v fs m)"
proof -
  define new where "new = map (\<lambda>f. \<lparr>item_file = f, status = Pending\<rparr>) (filter v fs)"
  define n where "n = length (items m)"
  define k where "k = length (filter v fs)"
  define m' where "m' = addFiles v fs m"
  note d = consistentD [OF c]
  have lk: "length new = k" by (simp add: new_def k_def)
  have it: "items m' = items m @ new"
    and qu: "queue m' = queue m @ [n ..< n + k]"
    and fl: "activeUploads m' = activeUploads m" "maxConcurrentUploads m' = maxConcurrentUploads m"
      "totalFiles m' = totalFiles m + int k" "completedFiles m' = completedFiles m"
      "failedFiles m' = failedFiles m"
    by (simp_all add: m'_def addFiles_def Let_def add_files_closed_form new_def n_def k_def)
  have st_new: "status ((items m @ new) ! a) = Pending" if "n \<le> a" "a < n + k" for a
    using that by (simp add: nth_append n_def new_def k_def)
  have st_old: "(items m @ new) ! a = items m ! a" if "a < n" for a
    using that by (simp add: nth_append n_def)
  have bt: "batch b m' = batch b m @ new" using d(7) by (simp add: batch_def it)
  have "consistent b m'"
  proof (rule consistentI)
    show "maxConcurrentUploads m' = 3" using d(1) fl by simp
    have "\<forall>a \<in> set (queue m). a < n" using d(3) by (auto simp: n_def)
    then show "distinct (queue m')"
      using d(2) by (auto simp: qu)
    show "a < length (items m') \<and> status (items m' ! a) = Pending" if "a \<in> set (queue m')" for a
    proof (cases "a \<in> set (queue m)")
      case True
      from d(3) [OF this] show ?thesis using st_old [of a] by (simp add: it n_def)
    next
      case False
      with that have "n \<le> a" "a < n + k" by (simp_all add: qu)
      then show ?thesis using st_new [of a] by (simp add: it lk n_def)
    qed
    show "a \<in> set (queue m')" if "a < length (items m')" "status (items m' ! a) = Pending" for a
    proof (cases "a < n")
      case True
      then have "status (items m ! a) = Pending" using that(2) st_old [of a] by (simp add: it)
      from d(4) [OF _ this] True show ?thesis by (simp add: qu n_def)
    next
      case False
      then show ?thesis using that(1) by (simp add: qu it lk n_def)
    qed
    show "activeUploads m' = int (count_status Uploading (items m'))"
      using d(5) by (simp add: fl it count_status_append new_def count_status_pending_new)
    show "activeUploads m' \<le> 3" using d(6) fl by simp
    show "b \<le> length (items m')" using d(7) by (simp add: it)
    show "terminal (items m' ! a)" if "a < b" for a
      using d(8) [OF that] that d(7) st_old [of a] by (simp add: it n_def)
    show "totalFiles m' = int (length (batch b m'))"
      using d(9) by (simp add: fl bt lk)
    show "completedFiles m' = int (count_status Completed (batch b m'))"
      using d(10) by (simp add: fl bt count_status_append new_def count_status_pending_new)
    show "failedFiles m' = int (count_status Failed (batch b m'))"
      using d(11) by (simp add: fl bt count_status_append new_def count_status_pending_new)
    show "totalFiles m' = completedFiles m' + failedFiles m' + activeUploads m'
            + int (length (queue m'))"
      using d(12) by (simp add: fl qu)
  qed
  then show ?thesis by (simp add: m'_def)
qed

lemma startUpload_consistent:
  assumes "consistent b m" and "startUpload m = (m', out)"
  shows "consistent b m'" and "out = [] \<or> out = [Start]"
  using assms processQueue_consistent [OF assms(1)]
  by (auto simp: startUpload_def split: if_splits)

lemma settle_counted_consistent:
  fixes ok :: bool
  assumes c: "consistent b m" and a: "a < length (items m)" "status (items m ! a) = Uploading"
  defines "m0 \<equiv> set_status a (if ok then Completed else Failed) m"
  defines "m1 \<equiv> m0\<lparr>activeUploads := activeUploads m0 - 1\<rparr>"
  defines "m2 \<equiv> (if ok then m1\<lparr>completedFiles := completedFiles m1 + 1\<rparr>
                else m1\<lparr>failedFiles := failedFiles m1 + 1\<rparr>)"
  shows "consistent b m2"
proof -
  note d = consistentD [OF c]
  let ?st = "if ok then Completed else Failed"
  have nt: "\<not> terminal (items m ! a)" using a by (simp add: terminal_def)
  have ba: "b \<le> a" using not_terminal_above [OF c a(1) nt] .
  have aq: "a \<notin> set (queue m)" using d(3) [of a] a by auto
  have f2: "items m2 = items m0" "queue m2 = queue m" "maxConcurrentUploads m2 = maxConcurrentUploads m"
    "activeUploads m2 = activeUploads m - 1" "totalFiles m2 = totalFiles m"
    "completedFiles m2 = completedFiles m + (if ok then 1 else 0)"
    "failedFiles m2 = failedFiles m + (if ok then 0 else 1)"
    "batch b m2 = batch b m0"
    by (simp_all add: m2_def m1_def m0_def batch_def)
  have l0: "length (items m0) = length (items m)" by (simp add: m0_def)
  have pos: "1 \<le> count_status Uploading (items m)"
    using count_status_zeroD [of Uploading "items m" a] a by (cases "count_status Uploading (items m)") auto
  show ?thesis
  proof (rule consistentI)
    show "maxConcurrentUploads m2 = 3" using d(1) f2 by simp
    show "distinct (queue m2)" using d(2) f2 by simp
    show "a' < length (items m2) \<and> status (items m2 ! a') = Pending" if "a' \<in> set (queue m2)" for a'
    proof -
      from that have q: "a' \<in> set (queue m)" by (simp add: f2)
      then have "a' \<noteq> a" using aq by auto
      with d(3) [OF q] show ?thesis
        using set_status_nth [of a' m a ?st] by (simp add: f2 m0_def)
    qed
    show "a' \<in> set (queue m2)" if "a' < length (items m2)" "status (items m2 ! a') = Pending" for a'
    proof -
      from that(1) have l: "a' < length (items m)" by (simp add: f2 l0)
      have "a' \<noteq> a" using that(2) set_status_nth [OF l, of a ?st]
        by (cases ok) (auto simp: f2 m0_def)
      then have "status (items m ! a') = Pending"
        using that(2) set_status_nth [OF l, of a ?st] by (simp add: f2 m0_def)
      from d(4) [OF l this] show ?thesis by (simp add: f2)
    qed
    show "activeUploads m2 = int (count_status Uploading (items m2))"
      using set_status_count [OF a(1), of Uploading ?st] a(2) d(5)
      by (simp add: f2 m0_def)
    show "activeUploads m2 \<le> 3" using d(6) f2 by simp
    show "b \<le> length (items m2)" using d(7) by (simp add: f2 l0)
    show "terminal (items m2 ! a')" if "a' < b" for a'
    proof -
      have "a' \<noteq> a" "a' < length (items m)" using that ba d(7) by simp_all
      then show ?thesis using set_status_terminal [of a' m a ?st] d(8) [OF that]
        by (simp add: f2 m0_def)
    qed
    show "totalFiles m2 = int (length (batch b m2))" using d(9) by (simp add: f2 m0_def)
    show "completedFiles m2 = int (count_status Completed (batch b m2))"
      using set_status_batch_count [OF a(1) ba, of Completed ?st] a(2) d(10)
      by (simp add: f2 m0_def)
    show "failedFiles m2 = int (count_status Failed (batch b m2))"
      using set_status_batch_count [OF a(1) ba, of Failed ?st] a(2) d(11)
      by (simp add: f2 m0_def)
    show "totalFiles m2 = completedFiles m2 + failedFiles m2 + activeUploads m2
            + int (length (queue m2))"
      using d(12) by (simp add: f2)
  qed
qed

lemma reset_fields [simp]:
  "items (reset m) = items m" "queue (reset m) = []" "activeUploads (reset m) = 0"
  "maxConcurrentUploads (reset m) = maxConcurrentUploads m" "totalFiles (reset m) = 0"
  "completedFiles (reset m) = 0" "failedFiles (reset m) = 0"
  by (simp_all add: reset_def)

lemma all_done_iff:
  assumes c: "consistent b m"
  shows "(completedFiles m + failedFiles m = totalFiles m) = list_all terminal (batch b m)"
proof
  note d = consistentD [OF c]
  assume "completedFiles m + failedFiles m = totalFiles m"
  with d(12) d(5) have "int (count_status Uploading (items m)) + int (length (queue m)) = 0"
    by simp
  then have "length (queue m) = 0" and u: "count_status Uploading (items m) = 0" by linarith+
  then have q: "queue m = []" by simp
  have "terminal (items m ! a)" if "a < length (items m)" for a
  proof -
    have "status (items m ! a) \<noteq> Pending" using d(4) [OF that] q by auto
    moreover have "status (items m ! a) \<noteq> Uploading" using count_status_zeroD [OF u that] .
    ultimately show ?thesis by (cases "status (items m ! a)") (simp_all add: terminal_def)
  qed
  then show "list_all terminal (batch b m)"
    by (simp add: batch_def list_all_length)
next
  note d = consistentD [OF c]
  assume t: "list_all terminal (batch b m)"
  have all: "terminal (items m ! a)" if "a < length (items m)" for a
  proof (cases "a < b")
    case True
    then show ?thesis using d(8) by simp
  next
    case False
    then have "a - b < length (batch b m)" "batch b m ! (a - b) = items m ! a"
      using that by (simp_all add: batch_def)
    with t show ?thesis by (metis list_all_length)
  qed
  have q: "queue m = []"
  proof (cases "queue m")
    case Nil
    then show ?thesis .
  next
    case (Cons a rest)
    then have "a < length (items m) \<and> status (items m ! a) = Pending" using d(3) [of a] by simp
    with all [of a] show ?thesis by (simp add: terminal_def)
  qed
  have "count_status Uploading (items m) = 0"
  proof (rule count_status_zero)
    fix a assume "a < length (items m)"
    from all [OF this] show "status (items m ! a) \<noteq> Uploading" by (auto simp: terminal_def)
  qed
  with d(12) d(5) q show "completedFiles m + failedFiles m = totalFiles m" by simp
qed

lemma reset_at_rest:
  assumes c: "consistent b m" and fin: "completedFiles m + failedFiles m = totalFiles m"
  shows "at_rest (length (items m)) (reset m)"
proof -
  note d = consistentD [OF c]
  from fin d(12) d(5) have "int (count_status Uploading (items m)) + int (length (queue m)) = 0"
    by simp
  then have "length (queue m) = 0" and u: "count_status Uploading (items m) = 0" by linarith+
  then have q: "queue m = []" by simp
  have all: "terminal (items m ! a)" if "a < length (items m)" for a
  proof -
    have "status (items m ! a) \<noteq> Pending" using d(4) [OF that] q by auto
    moreover have "status (items m ! a) \<noteq> Uploading" using count_status_zeroD [OF u that] .
    ultimately show ?thesis by (cases "status (items m ! a)") (simp_all add: terminal_def)
  qed
  have "consistent (length (items m)) (reset m)"
  proof (rule consistentI)
    show "status (items (reset m) ! a) = Pending \<Longrightarrow> a \<in> set (queue (reset m))"
      if "a < length (items (reset m))" for a
      using all [of a] that by (simp add: terminal_def)
  qed (use d(1) u all in \<open>simp_all add: batch_def count_status_def\<close>)
  then show ?thesis by (simp add: at_rest_def)
qed

lemma settle_unfold:
  "uploadFile_settle a ok m =
     (let m3 = processQueue (counted a ok m)
      in if completedFiles m3 + failedFiles m3 = totalFiles m3
         then (reset m3,
               [Complete a,
                AllComplete \<lparr>total = totalFiles m3, completed = completedFiles m3,
                             failed = failedFiles m3\<rparr>])
         else (m3, [Complete a]))"
  by (simp add: uploadFile_settle_def handleUploadComplete_def Let_def counted_def)

lemma counted_consistent:
  assumes "consistent b m" and "a < length (items m)" and "status (items m ! a) = Uploading"
  shows "consistent b (counted a ok m)"
  using settle_counted_consistent [OF assms, of ok] by (simp add: counted_def Let_def)

lemma counted_fields:
  "queue (counted a ok m) = queue m"
  "activeUploads (counted a ok m) = activeUploads m - 1"
  "maxConcurrentUploads (counted a ok m) = maxConcurrentUploads m"
  "length (items (counted a ok m)) = length (items m)"
  by (simp_all add: counted_def Let_def)

lemma at_rest_init: "at_rest 0 new_UploadManager"
  by (simp add: at_rest_def consistent_def new_UploadManager_def batch_def count_status_def)

lemma step_at_rest:
  assumes r: "at_rest b m" and ev: "ev \<noteq> CancelAllUploads" and s: "step v ev m = Some (m', out)"
  shows "at_rest (if list_ex is_AllComplete out \<or> Cancelled \<in> set out
                  then length (items m') else b) m'"
proof -
  from r have c: "consistent b m"
    and nz: "totalFiles m = 0 \<or> completedFiles m + failedFiles m < totalFiles m"
    by (simp_all add: at_rest_def)
  note d = consistentD [OF c]
  show ?thesis
  proof (cases ev)
    case (AddFiles fs)
    with s have m': "m' = addFiles v fs m" and out: "out = []" by simp_all
    have "totalFiles m' = totalFiles m + int (length (filter v fs))"
      "completedFiles m' = completedFiles m" "failedFiles m' = failedFiles m"
      by (simp_all add: m' addFiles_def Let_def add_files_closed_form)
    moreover have "completedFiles m + failedFiles m \<le> totalFiles m" using d(12) d(5) by simp
    moreover have "0 \<le> completedFiles m + failedFiles m" using d(10) d(11) by simp
    moreover have "length (filter v fs) = 0 \<or> 0 < int (length (filter v fs))" by auto
    ultimately have "totalFiles m' = 0 \<or> completedFiles m' + failedFiles m' < totalFiles m'"
      using nz by linarith
    then show ?thesis using addFiles_consistent [OF c, of v fs] by (simp add: out m' at_rest_def)
  next
    case StartUpload
    with s have su: "startUpload m = (m', out)" by simp
    from startUpload_consistent [OF c su] have c': "consistent b m'" and o: "out = [] \<or> out = [Start]"
      by simp_all
    have "totalFiles m' = totalFiles m" "completedFiles m' = completedFiles m"
      "failedFiles m' = failedFiles m"
      using su by (auto simp: startUpload_def split: if_splits)
    then show ?thesis using c' o nz by (auto simp: at_rest_def)
  next
    case (Settle a ok)
    with s have en: "a < length (items m)" "status (items m ! a) = Uploading"
      and res: "uploadFile_settle a ok m = (m', out)"
      by (simp_all split: if_splits)
    define m3 where "m3 = processQueue (counted a ok m)"
    have c3: "consistent b m3"
      unfolding m3_def by (rule processQueue_consistent) (rule counted_consistent [OF c en])
    note d3 = consistentD [OF c3]
    show ?thesis
    proof (cases "completedFiles m3 + failedFiles m3 = totalFiles m3")
      case True
      with res have "m' = reset m3" "list_ex is_AllComplete out"
        by (auto simp: settle_unfold m3_def [symmetric] Let_def)
      then show ?thesis using reset_at_rest [OF c3 True] by simp
    next
      case False
      with res have "m' = m3" "out = [Complete a]"
        by (auto simp: settle_unfold m3_def [symmetric] Let_def)
      moreover have "completedFiles m3 + failedFiles m3 < totalFiles m3"
        using False d3(12) d3(5) by simp
      ultimately show ?thesis using c3 by (simp add: at_rest_def)
    qed
  next
    case CancelAllUploads
    with ev show ?thesis by simp
  qed
qed

lemma run_at_rest:
  "at_rest b m \<Longrightarrow> CancelAllUploads \<notin> set evs \<Longrightarrow> run v evs (m, b) = Some (m', b')
   \<Longrightarrow> at_rest b' m'"
proof (induction evs arbitrary: m b)
  case Nil
  then show ?case by simp
next
  case (Cons e es)
  from Cons.prems(3) obtain m1 out where s: "step v e m = Some (m1, out)"
    by (auto split: option.splits)
  let ?b1 = "if list_ex is_AllComplete out \<or> Cancelled \<in> set out then length (items m1) else b"
  from Cons.prems(3) s have r: "run v es (m1, ?b1) = Some (m', b')" by simp
  from Cons.prems(2) have "e \<noteq> CancelAllUploads" "CancelAllUploads \<notin> set es" by auto
  from Cons.IH [OF step_at_rest [OF Cons.prems(1) this(1) s] this(2) r] show ?case .
qed

lemma step_within_cap:
  assumes w: "within_cap m" and s: "step v ev m = Some (m', out)"
  shows "within_cap m'"
proof (cases ev)
  case (AddFiles fs)
  with s w show ?thesis
    by (auto simp: within_cap_def addFiles_def Let_def add_files_closed_form)
next
  case StartUpload
  with s w processQueue_bounded [of m] show ?thesis
    by (auto simp: within_cap_def startUpload_def split: if_splits)
next
  case (Settle a ok)
  with s have res: "uploadFile_settle a ok m = (m', out)" by (simp split: if_splits)
  have "activeUploads (counted a ok m) \<le> maxConcurrentUploads (counted a ok m)"
    using w by (simp add: counted_fields within_cap_def)
  from processQueue_bounded [OF this] w
  have "within_cap (processQueue (counted a ok m))"
    by (simp add: within_cap_def counted_fields)
  with res show ?thesis
    by (auto simp: settle_unfold Let_def within_cap_def split: if_splits)
next
  case CancelAllUploads
  with s w show ?thesis by (auto simp: within_cap_def cancelAllUploads_def)
qed

lemma run_within_cap:
  "within_cap m \<Longrightarrow> run v evs (m, b) = Some (m', b') \<Longrightarrow> within_cap m'"
proof (induction evs arbitrary: m b)
  case Nil
  then show ?case by simp
next
  case (Cons e es)
  from Cons.prems(2) obtain m1 out where s: "step v e m = Some (m1, out)"
    by (auto split: option.splits)
  let ?b1 = "if list_ex is_AllComplete out \<or> Cancelled \<in> set out then length (items m1) else b"
  from Cons.prems(2) s have r: "run v es (m1, ?b1) = Some (m', b')" by simp
  from Cons.IH [OF step_within_cap [OF Cons.prems(1) s] r] show ?case .
qed

lemma settle_admits:
  assumes c: "consistent b m" and s: "step v (Settle a ok) m = Some (m', out)"
  shows "0 \<le> int (length (queue m)) - int (length (queue m'))"
    and "int (length (queue m)) - int (length (queue m'))
           \<le> maxConcurrentUploads m - (activeUploads m - 1)"
    and "int (count_status Uploading (items m'))
           = activeUploads m - 1 + (int (length (queue m)) - int (length (queue m')))"
proof -
  from s have en: "a < length (items m)" "status (items m ! a) = Uploading"
    and res: "uploadFile_settle a ok m = (m', out)"
    by (simp_all split: if_splits)
  define m3 where "m3 = processQueue (counted a ok m)"
  have c3: "consistent b m3"
    unfolding m3_def by (rule processQueue_consistent) (rule counted_consistent [OF c en])
  note d3 = consistentD [OF c3]
  have adm: "activeUploads m3 - (activeUploads m - 1)
               = int (length (queue m)) - int (length (queue m3))"
    using processQueue_admitted [of "counted a ok m"] by (simp add: m3_def counted_fields)
  have sh: "length (queue m3) \<le> length (queue m)"
    using processQueue_queue_shorter [of "counted a ok m"] by (simp add: m3_def counted_fields)
  have mx: "maxConcurrentUploads m = 3" using consistentD(1) [OF c] .
  have q: "queue m' = queue m3 \<and> items m' = items m3"
  proof (cases "completedFiles m3 + failedFiles m3 = totalFiles m3")
    case True
    with d3(12) d3(5) have "int (count_status Uploading (items m3)) + int (length (queue m3)) = 0"
      by simp
    then have "length (queue m3) = 0" by linarith
    moreover from True res have "m' = reset m3"
      by (auto simp: settle_unfold m3_def [symmetric] Let_def)
    ultimately show ?thesis by simp
  next
    case False
    with res have "m' = m3" by (auto simp: settle_unfold m3_def [symmetric] Let_def)
    then show ?thesis by simp
  qed
  show "0 \<le> int (length (queue m)) - int (length (queue m'))" using sh q by simp
  show "int (length (queue m)) - int (length (queue m'))
           \<le> maxConcurrentUploads m - (activeUploads m - 1)"
    using adm d3(6) q mx by simp
  show "int (count_status Uploading (items m'))
           = activeUploads m - 1 + (int (length (queue m)) - int (length (queue m')))"
    using adm d3(5) q by simp
qed

subsection \<open>The concurrency cap\<close>

text \<open>
  The cap in runs without cancellation (the positive part of claim C3). After any run of the
  manager from its construction the counter \<open>activeUploads\<close> is at most the cap of 3. In
  a run without cancellation the counter is the number of items whose status is
  \<open>Uploading\<close>, and when an upload settles, the number of pending items the completion
  admits is at most the cap minus the uploads still in flight; the items in flight
  afterwards are those still in flight plus the admitted ones.
\<close>

theorem in_flight_within_cap:
  assumes "run v evs (new_UploadManager, 0) = Some (m, b)"
  shows "maxConcurrentUploads m = 3 \<and> activeUploads m \<le> maxConcurrentUploads m
       \<and> (CancelAllUploads \<notin> set evs \<longrightarrow>
            int (count_status Uploading (items m)) = activeUploads m
          \<and> (\<forall>a ok m' out. step v (Settle a ok) m = Some (m', out) \<longrightarrow>
               (let admitted = int (length (queue m)) - int (length (queue m'))
                in 0 \<le> admitted
                 \<and> admitted \<le> maxConcurrentUploads m - (activeUploads m - 1)
                 \<and> int (count_status Uploading (items m')) = activeUploads m - 1 + admitted)))"
proof -
  have "within_cap new_UploadManager" by (simp add: within_cap_def new_UploadManager_def)
  from run_within_cap [OF this assms] have w: "maxConcurrentUploads m = 3" "activeUploads m \<le> 3"
    by (simp_all add: within_cap_def)
  have rest: "int (count_status Uploading (items m)) = activeUploads m
          \<and> (\<forall>a ok m' out. step v (Settle a ok) m = Some (m', out) \<longrightarrow>
               (let admitted = int (length (queue m)) - int (length (queue m'))
                in 0 \<le> admitted
                 \<and> admitted \<le> maxConcurrentUploads m - (activeUploads m - 1)
                 \<and> int (count_status Uploading (items m')) = activeUploads m - 1 + admitted))"
    if nc: "CancelAllUploads \<notin> set evs"
  proof -
    from run_at_rest [OF at_rest_init nc assms] have c: "consistent b m" by (simp add: at_rest_def)
    show ?thesis
      using consistentD(5) [OF c] settle_admits [OF c] by (simp add: Let_def)
  qed
  show ?thesis using w rest by simp
qed

theorem in_flight_within_cap_witness:
  "\<exists>m b. run images_only
            [AddFiles [jpeg ''a'', text_file, jpeg ''b'', jpeg ''c'', jpeg ''d'', jpeg ''e''],
             StartUpload, Settle 0 True] (new_UploadManager, 0) = Some (m, b)
         \<and> length (items m) = 5
         \<and> activeUploads m = 3
         \<and> int (count_status Uploading (items m)) = activeUploads m"
proof -
  let ?evs = "[AddFiles [jpeg ''a'', text_file, jpeg ''b'', jpeg ''c'', jpeg ''d'', jpeg ''e''],
               StartUpload, Settle 0 True]"
  let ?r = "run images_only ?evs (new_UploadManager, 0)"
  have some: "?r = Some (fst (the ?r), snd (the ?r))"
    by code_simp
  have nc: "CancelAllUploads \<notin> set ?evs" by simp
  have ev: "length (items (fst (the ?r))) = 5" "activeUploads (fst (the ?r)) = 3"
    by code_simp+
  from in_flight_within_cap [OF some] nc
  have "int (count_status Uploading (items (fst (the ?r)))) = activeUploads (fst (the ?r))"
    by blast
  with some ev show ?thesis by blast
qed

text \<open>
  Claim C3 fails on the code after a cancellation. \<^verbatim>\<open>cancelAllUploads\<close> resets the
  counter, but the uploads that were started keep running: nothing listens to the abort
  signal. Three files are added and started, the batch is cancelled, three more files are
  added and started: six items are in the state \<open>Uploading\<close> at once, and the counter
  says three.
\<close>

theorem cap_exceeded_after_cancellation:
  "\<exists>m b. run images_only
            [AddFiles [jpeg ''a'', jpeg ''b'', jpeg ''c''], StartUpload, CancelAllUploads,
             AddFiles [jpeg ''d'', jpeg ''e'', jpeg ''f''], StartUpload]
            (new_UploadManager, 0) = Some (m, b)
         \<and> map status (items m)
             = [Uploading, Uploading, Uploading, Uploading, Uploading, Uploading]
         \<and> count_status Uploading (items m) = 6
         \<and> activeUploads m = 3"
proof -
  let ?r = "run images_only
            [AddFiles [jpeg ''a'', jpeg ''b'', jpeg ''c''], StartUpload, CancelAllUploads,
             AddFiles [jpeg ''d'', jpeg ''e'', jpeg ''f''], StartUpload]
            (new_UploadManager, 0)"
  have "?r = Some (fst (the ?r), snd (the ?r))" by code_simp
  moreover have "map status (items (fst (the ?r)))
      = [Uploading, Uploading, Uploading, Uploading, Uploading, Uploading]" by code_simp
  moreover have "count_status Uploading (items (fst (the ?r))) = 6" by code_simp
  moreover have "activeUploads (fst (the ?r)) = 3" by code_simp
  ultimately show ?thesis by (intro exI conjI)
qed

subsection \<open>The batch-level event\<close>

text \<open>
  The event in runs without cancellation (the positive part of claim C5). A step emits
  \<^verbatim>\<open>allComplete\<close> exactly when, after the step, the current batch has items and
  each of them is completed or failed. The event is then emitted once, and its payload is
  the number of items of the batch, the number of completed ones and the number of failed
  ones.
\<close>

theorem allComplete_when_batch_terminal:
  assumes r: "run v evs (new_UploadManager, 0) = Some (m, b)"
    and nc: "CancelAllUploads \<notin> set (evs @ [ev])"
    and s: "step v ev m = Some (m', out)"
  shows "(list_ex is_AllComplete out \<longleftrightarrow> batch b m' \<noteq> [] \<and> list_all terminal (batch b m'))
       \<and> (list_ex is_AllComplete out \<longrightarrow>
            filter is_AllComplete out
              = [AllComplete \<lparr>total = int (length (batch b m')),
                              completed = int (count_status Completed (batch b m')),
                              failed = int (count_status Failed (batch b m'))\<rparr>])"
proof -
  from nc have nc1: "CancelAllUploads \<notin> set evs" and nc2: "ev \<noteq> CancelAllUploads" by auto
  from run_at_rest [OF at_rest_init nc1 r] have c: "consistent b m"
    and nz: "totalFiles m = 0 \<or> completedFiles m + failedFiles m < totalFiles m"
    by (simp_all add: at_rest_def)
  have quiet: "\<not> list_ex is_AllComplete out \<and> \<not> (batch b m' \<noteq> [] \<and> list_all terminal (batch b m'))"
    if c': "consistent b m'" and o: "out = [] \<or> out = [Start]"
      and nz': "totalFiles m' = 0 \<or> completedFiles m' + failedFiles m' < totalFiles m'"
  proof -
    have "\<not> list_ex is_AllComplete out" using o by auto
    moreover have "\<not> (batch b m' \<noteq> [] \<and> list_all terminal (batch b m'))"
    proof
      assume a: "batch b m' \<noteq> [] \<and> list_all terminal (batch b m')"
      then have "completedFiles m' + failedFiles m' = totalFiles m'"
        using all_done_iff [OF c'] by simp
      moreover have "totalFiles m' \<noteq> 0" using a consistentD(9) [OF c'] by simp
      ultimately show False using nz' by simp
    qed
    ultimately show ?thesis by simp
  qed
  show ?thesis
  proof (cases ev)
    case (AddFiles fs)
    with s have e: "m' = addFiles v fs m" "out = []" by simp_all
    from step_at_rest [OF _ nc2 s] c nz have "at_rest b m'" by (simp add: at_rest_def e)
    then show ?thesis using quiet e by (simp add: at_rest_def)
  next
    case StartUpload
    with s have su: "startUpload m = (m', out)" by simp
    from startUpload_consistent [OF c su] have o: "out = [] \<or> out = [Start]" by simp
    then have "\<not> (list_ex is_AllComplete out \<or> Cancelled \<in> set out)" by auto
    with step_at_rest [OF _ nc2 s] c nz have "at_rest b m'" by (simp add: at_rest_def)
    then show ?thesis using quiet o by (simp add: at_rest_def)
  next
    case (Settle a ok)
    with s have en: "a < length (items m)" "status (items m ! a) = Uploading"
      and res: "uploadFile_settle a ok m = (m', out)"
      by (simp_all split: if_splits)
    define m3 where "m3 = processQueue (counted a ok m)"
    have c3: "consistent b m3"
      unfolding m3_def by (rule processQueue_consistent) (rule counted_consistent [OF c en])
    note d3 = consistentD [OF c3]
    have "b \<le> a" using not_terminal_above [OF c en(1)] en(2) by (simp add: terminal_def)
    then have ne: "batch b m3 \<noteq> []"
      using en(1) by (simp add: batch_def m3_def counted_fields)
    show ?thesis
    proof (cases "completedFiles m3 + failedFiles m3 = totalFiles m3")
      case True
      with res have m': "m' = reset m3"
        and out: "out = [Complete a, AllComplete \<lparr>total = totalFiles m3,
                     completed = completedFiles m3, failed = failedFiles m3\<rparr>]"
        by (auto simp: settle_unfold m3_def [symmetric] Let_def)
      have bt: "batch b m' = batch b m3" by (simp add: m' batch_def)
      have "list_all terminal (batch b m3)" using all_done_iff [OF c3] True by simp
      then show ?thesis using ne d3(9) d3(10) d3(11) by (simp add: bt out)
    next
      case False
      with res have m': "m' = m3" and out: "out = [Complete a]"
        by (auto simp: settle_unfold m3_def [symmetric] Let_def)
      have "\<not> list_all terminal (batch b m3)" using all_done_iff [OF c3] False by simp
      then show ?thesis by (simp add: m' out)
    qed
  next
    case CancelAllUploads
    with nc2 show ?thesis by simp
  qed
qed

theorem allComplete_when_batch_terminal_witness:
  "\<exists>m b m' out.
      run images_only [AddFiles [jpeg ''a'', jpeg ''b''], StartUpload, Settle 0 True]
        (new_UploadManager, 0) = Some (m, b)
    \<and> step images_only (Settle 1 False) m = Some (m', out)
    \<and> filter is_AllComplete out = [AllComplete \<lparr>total = 2, completed = 1, failed = 1\<rparr>]"
proof -
  let ?evs = "[AddFiles [jpeg ''a'', jpeg ''b''], StartUpload, Settle 0 True]"
  let ?r = "run images_only ?evs (new_UploadManager, 0)"
  let ?s = "step images_only (Settle 1 False) (fst (the ?r))"
  have some: "?r = Some (fst (the ?r), snd (the ?r))"
    by code_simp
  have st: "?s = Some (fst (the ?s), snd (the ?s))"
    by code_simp
  have nc: "CancelAllUploads \<notin> set (?evs @ [Settle 1 False])" by simp
  have fires: "list_ex is_AllComplete (snd (the ?s))"
    by code_simp
  have n: "int (length (batch (snd (the ?r)) (fst (the ?s)))) = 2"
    "int (count_status Completed (batch (snd (the ?r)) (fst (the ?s)))) = 1"
    "int (count_status Failed (batch (snd (the ?r)) (fst (the ?s)))) = 1"
    by code_simp+
  from allComplete_when_batch_terminal [OF some nc st] fires
  have "filter is_AllComplete (snd (the ?s))
      = [AllComplete \<lparr>total = int (length (batch (snd (the ?r)) (fst (the ?s)))),
            completed = int (count_status Completed (batch (snd (the ?r)) (fst (the ?s)))),
            failed = int (count_status Failed (batch (snd (the ?r)) (fst (the ?s))))\<rparr>]"
    by blast
  then have "filter is_AllComplete (snd (the ?s))
      = [AllComplete \<lparr>total = 2, completed = 1, failed = 1\<rparr>]"
    by (simp only: n)
  with some st show ?thesis by blast
qed

text \<open>
  Claim C5 fails on the code after a cancellation, for the same reason: the upload of a
  cancelled batch still settles and is counted. One file is added and started, the batch is
  cancelled, a second file is added. When the first upload settles, the second file is
  started without \<^verbatim>\<open>startUpload\<close>, and \<^verbatim>\<open>allComplete\<close> is emitted with one
  completed item of one, while the only item of the batch is still uploading.
\<close>

theorem allComplete_early_after_cancellation:
  "\<exists>m b m' out.
      run images_only [AddFiles [jpeg ''a''], StartUpload, CancelAllUploads, AddFiles [jpeg ''b'']]
        (new_UploadManager, 0) = Some (m, b)
    \<and> map status (batch b m) = [Pending]
    \<and> step images_only (Settle 0 True) m = Some (m', out)
    \<and> out = [Complete 0, AllComplete \<lparr>total = 1, completed = 1, failed = 0\<rparr>]
    \<and> map status (batch b m') = [Uploading]
    \<and> queue m' = []"
proof -
  let ?r = "run images_only
             [AddFiles [jpeg ''a''], StartUpload, CancelAllUploads, AddFiles [jpeg ''b'']]
             (new_UploadManager, 0)"
  let ?s = "step images_only (Settle 0 True) (fst (the ?r))"
  have "?r = Some (fst (the ?r), snd (the ?r))" by code_simp
  moreover have "map status (batch (snd (the ?r)) (fst (the ?r))) = [Pending]" by code_simp
  moreover have "?s = Some (fst (the ?s), snd (the ?s))" by code_simp
  moreover have "snd (the ?s)
      = [Complete 0, AllComplete \<lparr>total = 1, completed = 1, failed = 0\<rparr>]" by code_simp
  moreover have "map status (batch (snd (the ?r)) (fst (the ?s))) = [Uploading]" by code_simp
  moreover have "queue (fst (the ?s)) = []" by code_simp
  ultimately show ?thesis by (intro exI conjI)
qed

section \<open>Properties of the gallery view-model\<close>


lemma filterAndSortPhotos_frame [simp]:
  "photos (filterAndSortPhotos P t g) = photos g"
  "selectedPhotos (filterAndSortPhotos P t g) = selectedPhotos g"
  "searchQuery (filterAndSortPhotos P t g) = searchQuery g"
  "currentCategory (filterAndSortPhotos P t g) = currentCategory g"
  "currentFilter (filterAndSortPhotos P t g) = currentFilter g"
  "currentSort (filterAndSortPhotos P t g) = currentSort g"
  by (simp_all add: filterAndSortPhotos_def Let_def)



text \<open>
  The condition on the date filter is needed because the view depends on the clock, not
  because of the category filter: a photo that is one second short of a week old is shown,
  and two seconds later it is not.
\<close>

lemma date_filter_reads_clock:
  "map photo_id (filteredPhotos (filterAndSortPhotos utc_platform 1700604799000 fresh_gallery))
     = [''new'']
   \<and> map photo_id (filteredPhotos (on_category_change utc_platform 1700604801000 ''all''
        (on_category_change utc_platform 1700604800000 ''travel''
          (filterAndSortPhotos utc_platform 1700604799000 fresh_gallery)))) = []"
  by code_simp

text \<open>
  Claim C9. Changing the search text, the category, the date filter or the sort order
  leaves the selection set as it was, whatever the new view shows.
\<close>

theorem selection_survives_filtering:
  "selectedPhotos (on_search_input P t q g) = selectedPhotos g
   \<and> selectedPhotos (on_category_change P t c g) = selectedPhotos g
   \<and> selectedPhotos (on_filter_change P t f g) = selectedPhotos g
   \<and> selectedPhotos (on_sort_change P t s g) = selectedPhotos g"
  by (simp add: on_search_input_def on_category_change_def on_filter_change_def
      on_sort_change_def)

text \<open>All three photos of the sample gallery are selected; the category ``food'' then
  shows one of them, and all three are still selected.\<close>

theorem selection_survives_filtering_witness:
  "map photo_id (filteredPhotos (on_category_change utc_platform 1700000401000 ''food''
      (selectAllPhotos (filterAndSortPhotos utc_platform 1700000400000 sample_gallery))))
     = [''cake'']
   \<and> selectedPhotos (on_category_change utc_platform 1700000401000 ''food''
      (selectAllPhotos (filterAndSortPhotos utc_platform 1700000400000 sample_gallery)))
     = [''beach'', ''cake'', ''summit'']"
proof -
  let ?g = "selectAllPhotos (filterAndSortPhotos utc_platform 1700000400000 sample_gallery)"
  have e1: "map photo_id (filteredPhotos (on_category_change utc_platform 1700000401000 ''food'' ?g))
      = [''cake'']"
    by code_simp
  have e2: "selectedPhotos ?g = [''beach'', ''cake'', ''summit'']"
    by code_simp
  from selection_survives_filtering [of utc_platform 1700000401000 _ ?g "''food''"]
  have "selectedPhotos (on_category_change utc_platform 1700000401000 ''food'' ?g) = selectedPhotos ?g"
    by blast
  with e1 e2 show ?thesis by simp
qed

section \<open>Properties of the server\<close>

subsection \<open>Deleting a photo\<close>

text \<open>The handler removes from \<open>imageStore\<close> at most the entry under the page
  identifier it was called with.\<close>

lemma delete_photo_imageStore:
  "imageStore (snd (delete_photo U sess pid s)) key
     = (if authenticated sess \<and> key = pid then None else imageStore s key)"
  by (auto simp: delete_photo_def Let_def pages_retrieve_def pages_archive_def
           split: sum.splits option.splits)

text \<open>
  Claim C1 fails on the code. The user \<open>user-1\<close> has uploaded a photo: its page is
  \<open>page-1\<close>, its image key is \<open>photo_1700000000000_k3j9x2m1q\<close>, and the image is in
  \<open>imageStore\<close> under that key. Deleting the photo succeeds and archives the page, but
  the image is still in \<open>imageStore\<close> and is still served.
\<close>

theorem delete_photo_keeps_blob:
  "map_option ImageKey (photoPages server_with_photo ''page-1'')
     = Some ''photo_1700000000000_k3j9x2m1q''
   \<and> imageStore server_with_photo ''photo_1700000000000_k3j9x2m1q''
     = Some ''data:image/png;base64,AAAA''
   \<and> fst (delete_photo no_outage (Some ''user-1'') ''page-1'' server_with_photo) = Success
   \<and> map_option archived
       (photoPages (snd (delete_photo no_outage (Some ''user-1'') ''page-1'' server_with_photo))
          ''page-1'') = Some True
   \<and> imageStore (snd (delete_photo no_outage (Some ''user-1'') ''page-1'' server_with_photo))
       ''photo_1700000000000_k3j9x2m1q'' = Some ''data:image/png;base64,AAAA''
   \<and> serve_image (Some ''user-1'')
       (snd (delete_photo no_outage (Some ''user-1'') ''page-1'' server_with_photo))
       ''photo_1700000000000_k3j9x2m1q'' = ImageBytes ''image/png'' ''AAAA''"
  by code_simp

text \<open>
  Claim C10. For a request that passes \<^verbatim>\<open>requireAuth\<close>, the response to
  \<^verbatim>\<open>DELETE /api/photos/:id\<close> is the success flag for every identifier, every state
  of the store and every failure of the store's calls: when the page does not exist, when
  it is archived already, and when retrieving or archiving it throws.
\<close>

theorem delete_photo_always_succeeds:
  assumes "authenticated sess"
  shows "fst (delete_photo U sess pid s) = Success
       \<and> http_status (fst (delete_photo U sess pid s)) = 200"
  using assms by (simp add: delete_photo_def Let_def)

text \<open>An unknown identifier; a page that is archived already, deleted again while the
  store is unreachable.\<close>

theorem delete_photo_always_succeeds_witness:
  "authenticated (Some ''user-1'')
   \<and> photoPages server_with_photo ''page-9'' = None
   \<and> fst (delete_photo no_outage (Some ''user-1'') ''page-9'' server_with_photo) = Success
   \<and> fst (delete_photo (no_outage\<lparr>retrieve_throws := True\<rparr>) (Some ''user-1'') ''page-1''
            (snd (delete_photo no_outage (Some ''user-1'') ''page-1'' server_with_photo)))
       = Success"
proof -
  have a: "authenticated (Some ''user-1'')" by (simp add: authenticated_def)
  have n: "photoPages server_with_photo ''page-9'' = None" by code_simp
  from a n delete_photo_always_succeeds [OF a, of no_outage "''page-9''" server_with_photo]
    delete_photo_always_succeeds [OF a, of "no_outage\<lparr>retrieve_throws := True\<rparr>" "''page-1''"
      "snd (delete_photo no_outage (Some ''user-1'') ''page-1'' server_with_photo)"]
  show ?thesis by simp
qed

subsection \<open>Serving an image\<close>




subsection \<open>Registration\<close>




end
